theory Spec2Isabelle
  imports Main "HOL-Library.Monad_Syntax" "HOL-Library.List_Lexorder" "HOL-Library.Char_ord"
begin

section \<open>Node model (methods/node.py)\<close>

text \<open>
  A \<open>Node\<close> object lives in a store, addressed by a natural number. The class has the
  fields \<open>value\<close>, \<open>parent\<close>, \<open>left\<close>, \<open>right\<close> and three fields that one engine each uses:
  \<open>height\<close> (AVL), \<open>color\<close> (Red-Black) and \<open>priority\<close> (Treap). Each engine's store
  holds the four shared fields and the one field that engine reads and writes.
  The AVL tree and the treap link nodes with \<open>Optional[Node]\<close> (\<open>nat option\<close>); the
  Red-Black tree links every node to a node, the sentinel \<open>nil\<close> standing for no node,
  and only the sentinel has the value \<open>None\<close>.
\<close>

record ('v, 'p) node =
  "value" :: 'v
  parent :: 'p
  left :: 'p
  right :: 'p

record 'a avl_node = "('a, nat option) node" +
  height :: int

record 'a treap_node = "('a, nat option) node" +
  priority :: int

record 'a rb_node = "('a option, nat) node" +
  color :: bool

definition RED :: bool where "RED = True"
definition BLACK :: bool where "BLACK = False"

text \<open>Field assignments \<open>p.left = v\<close> and so on, on the store.\<close>

definition set_value :: "(nat \<Rightarrow> ('v, 'p, 'm) node_scheme) \<Rightarrow> nat \<Rightarrow> 'v \<Rightarrow> (nat \<Rightarrow> ('v, 'p, 'm) node_scheme)" where
  "set_value h p v = h(p := (h p)\<lparr>value := v\<rparr>)"

definition set_parent :: "(nat \<Rightarrow> ('v, 'p, 'm) node_scheme) \<Rightarrow> nat \<Rightarrow> 'p \<Rightarrow> (nat \<Rightarrow> ('v, 'p, 'm) node_scheme)" where
  "set_parent h p v = h(p := (h p)\<lparr>parent := v\<rparr>)"

definition set_left :: "(nat \<Rightarrow> ('v, 'p, 'm) node_scheme) \<Rightarrow> nat \<Rightarrow> 'p \<Rightarrow> (nat \<Rightarrow> ('v, 'p, 'm) node_scheme)" where
  "set_left h p v = h(p := (h p)\<lparr>left := v\<rparr>)"

definition set_right :: "(nat \<Rightarrow> ('v, 'p, 'm) node_scheme) \<Rightarrow> nat \<Rightarrow> 'p \<Rightarrow> (nat \<Rightarrow> ('v, 'p, 'm) node_scheme)" where
  "set_right h p v = h(p := (h p)\<lparr>right := v\<rparr>)"

definition set_height :: "(nat \<Rightarrow> 'a avl_node) \<Rightarrow> nat \<Rightarrow> int \<Rightarrow> (nat \<Rightarrow> 'a avl_node)" where
  "set_height h p v = h(p := (h p)\<lparr>height := v\<rparr>)"

definition set_color :: "(nat \<Rightarrow> 'a rb_node) \<Rightarrow> nat \<Rightarrow> bool \<Rightarrow> (nat \<Rightarrow> 'a rb_node)" where
  "set_color h p v = h(p := (h p)\<lparr>color := v\<rparr>)"

section \<open>Capability contract (methods/base.py)\<close>

text \<open>
  \<open>BaseDataStructure\<close> holds the two rotation counters. A tree adds its store, its root
  and the next unused address (the model of object allocation). \<open>guard_hits\<close> is a ghost
  field: it counts how often a rotation primitive took its guard branch (the pivot lacks
  the child to promote), which the source does silently.
\<close>

record base =
  rotations_insert :: nat
  rotations_delete :: nat

record ('n, 'p) tree_state = base +
  heap :: "nat \<Rightarrow> 'n"
  root :: 'p
  next_ref :: nat
  guard_hits :: nat

definition total_rotations :: "'z base_scheme \<Rightarrow> nat" where
  "total_rotations s = rotations_insert s + rotations_delete s"

definition reset_metrics :: "'z base_scheme \<Rightarrow> 'z base_scheme" where
  "reset_metrics s = s\<lparr>rotations_insert := 0, rotations_delete := 0\<rparr>"

definition count_rotation :: "bool \<Rightarrow> 'z base_scheme \<Rightarrow> 'z base_scheme" where
  "count_rotation is_delete s =
     (if is_delete then s\<lparr>rotations_delete := rotations_delete s + 1\<rparr>
      else s\<lparr>rotations_insert := rotations_insert s + 1\<rparr>)"

section \<open>AVL engine (methods/avl_tree.py)\<close>

type_synonym 'a avl_heap = "nat \<Rightarrow> 'a avl_node"
type_synonym 'a avl_tree = "('a avl_node, nat option) tree_state"

definition avl_empty :: "'a avl_tree" where
  "avl_empty = \<lparr>rotations_insert = 0, rotations_delete = 0,
     heap = (\<lambda>_. \<lparr>value = undefined, parent = None, left = None, right = None, height = 1\<rparr>),
     root = None, next_ref = 0, guard_hits = 0\<rparr>"

definition avl_new_node :: "'a avl_tree \<Rightarrow> 'a \<Rightarrow> nat option \<Rightarrow> 'a avl_tree \<times> nat" where
  "avl_new_node s v par =
     (s\<lparr>heap := (heap s)(next_ref s :=
           \<lparr>value = v, parent = par, left = None, right = None, height = 1\<rparr>),
        next_ref := Suc (next_ref s)\<rparr>, next_ref s)"

definition get_height :: "'a avl_heap \<Rightarrow> nat option \<Rightarrow> int" where
  "get_height h node = (case node of None \<Rightarrow> 0 | Some n \<Rightarrow> height (h n))"

definition update_height :: "'a avl_heap \<Rightarrow> nat option \<Rightarrow> 'a avl_heap" where
  "update_height h node =
     (case node of None \<Rightarrow> h
      | Some n \<Rightarrow> set_height h n (1 + max (get_height h (left (h n))) (get_height h (right (h n)))))"

definition get_balance :: "'a avl_heap \<Rightarrow> nat option \<Rightarrow> int" where
  "get_balance h node =
     (case node of None \<Rightarrow> 0
      | Some n \<Rightarrow> get_height h (left (h n)) - get_height h (right (h n)))"

definition avl_rotate_right :: "'a avl_tree \<Rightarrow> nat \<Rightarrow> bool \<Rightarrow> 'a avl_tree \<times> nat" where
  "avl_rotate_right s y is_delete =
     (case left (heap s y) of
        None \<Rightarrow> (s\<lparr>guard_hits := guard_hits s + 1\<rparr>, y)
      | Some x \<Rightarrow>
          let h = heap s;
              T2 = right (h x);
              h = set_right h x (Some y);
              h = set_left h y T2;
              h = set_parent h x (parent (h y));
              h = set_parent h y (Some x);
              h = (case T2 of None \<Rightarrow> h | Some t \<Rightarrow> set_parent h t (Some y));
              s = (case parent (h x) of
                     None \<Rightarrow> s\<lparr>heap := h, root := Some x\<rparr>
                   | Some p \<Rightarrow>
                       if left (h p) = Some y then s\<lparr>heap := set_left h p (Some x)\<rparr>
                       else s\<lparr>heap := set_right h p (Some x)\<rparr>);
              s = s\<lparr>heap := update_height (heap s) (Some y)\<rparr>;
              s = s\<lparr>heap := update_height (heap s) (Some x)\<rparr>
          in (count_rotation is_delete s, x))"

definition avl_rotate_left :: "'a avl_tree \<Rightarrow> nat \<Rightarrow> bool \<Rightarrow> 'a avl_tree \<times> nat" where
  "avl_rotate_left s x is_delete =
     (case right (heap s x) of
        None \<Rightarrow> (s\<lparr>guard_hits := guard_hits s + 1\<rparr>, x)
      | Some y \<Rightarrow>
          let h = heap s;
              T2 = left (h y);
              h = set_left h y (Some x);
              h = set_right h x T2;
              h = set_parent h y (parent (h x));
              h = set_parent h x (Some y);
              h = (case T2 of None \<Rightarrow> h | Some t \<Rightarrow> set_parent h t (Some x));
              s = (case parent (h y) of
                     None \<Rightarrow> s\<lparr>heap := h, root := Some y\<rparr>
                   | Some p \<Rightarrow>
                       if left (h p) = Some x then s\<lparr>heap := set_left h p (Some y)\<rparr>
                       else s\<lparr>heap := set_right h p (Some y)\<rparr>);
              s = s\<lparr>heap := update_height (heap s) (Some x)\<rparr>;
              s = s\<lparr>heap := update_height (heap s) (Some y)\<rparr>
          in (count_rotation is_delete s, y))"

text \<open>
  A call of a method on \<open>None\<close> raises; a loop may run forever on a cyclic store. Both are
  the result \<open>None\<close> of the functions below; \<open>Some\<close> is a normal return.
\<close>

text \<open>\<open>rotate_child\<close>: the calls \<open>self._rotate_left(node.left)\<close> and \<open>self._rotate_right(node.right)\<close>,
  whose argument is an \<open>Optional[Node]\<close>.\<close>

definition avl_rotate_left_opt :: "'a avl_tree \<Rightarrow> nat option \<Rightarrow> bool \<Rightarrow> 'a avl_tree option" where
  "avl_rotate_left_opt s node is_delete =
     (case node of None \<Rightarrow> None | Some n \<Rightarrow> Some (fst (avl_rotate_left s n is_delete)))"

definition avl_rotate_right_opt :: "'a avl_tree \<Rightarrow> nat option \<Rightarrow> bool \<Rightarrow> 'a avl_tree option" where
  "avl_rotate_right_opt s node is_delete =
     (case node of None \<Rightarrow> None | Some n \<Rightarrow> Some (fst (avl_rotate_right s n is_delete)))"

text \<open>The rebalancing step shared by the insert walk and by \<open>_delete_node\<close>: the height
  update, the balance test and the single or double rotation. It returns the node that
  now roots the subtree.\<close>

definition avl_rebalance :: "'a avl_tree \<Rightarrow> nat \<Rightarrow> bool \<Rightarrow> ('a avl_tree \<times> nat) option" where
  "avl_rebalance s node is_delete =
     (let s = s\<lparr>heap := update_height (heap s) (Some node)\<rparr>;
          balance = get_balance (heap s) (Some node)
      in if balance > 1 then
           do { s \<leftarrow> (if get_balance (heap s) (left (heap s node)) < 0
                      then avl_rotate_left_opt s (left (heap s node)) is_delete
                      else Some s);
                Some (avl_rotate_right s node is_delete) }
         else if balance < -1 then
           do { s \<leftarrow> (if get_balance (heap s) (right (heap s node)) > 0
                      then avl_rotate_right_opt s (right (heap s node)) is_delete
                      else Some s);
                Some (avl_rotate_left s node is_delete) }
         else Some (s, node))"

datatype slot = Duplicate | Slot "nat option"

partial_function (option) avl_insert_search ::
  "('a::linorder) avl_heap \<Rightarrow> nat option \<Rightarrow> nat option \<Rightarrow> 'a \<Rightarrow> slot option" where
  "avl_insert_search h cur par v =
     (case cur of
        None \<Rightarrow> Some (Slot par)
      | Some c \<Rightarrow>
          if v = value (h c) then Some Duplicate
          else if v < value (h c) then avl_insert_search h (left (h c)) (Some c) v
          else avl_insert_search h (right (h c)) (Some c) v)"

declare avl_insert_search.simps [code]

partial_function (option) avl_insert_walk :: "'a avl_tree \<Rightarrow> nat option \<Rightarrow> 'a avl_tree option" where
  "avl_insert_walk s node =
     (case node of
        None \<Rightarrow> Some s
      | Some n \<Rightarrow>
          (case avl_rebalance s n False of
             None \<Rightarrow> None
           | Some (s, n) \<Rightarrow> avl_insert_walk s (parent (heap s n))))"

declare avl_insert_walk.simps [code]

definition avl_insert :: "('a::linorder) avl_tree \<Rightarrow> 'a \<Rightarrow> ('a avl_tree \<times> bool) option" where
  "avl_insert s v =
     (case root s of
        None \<Rightarrow> (let (s, n) = avl_new_node s v None in Some (s\<lparr>root := Some n\<rparr>, True))
      | Some r \<Rightarrow>
          do { sl \<leftarrow> avl_insert_search (heap s) (root s) None v;
               case sl of
                 Duplicate \<Rightarrow> Some (s, False)
               | Slot None \<Rightarrow> None
               | Slot (Some p) \<Rightarrow>
                   (let (s, n) = avl_new_node s v (Some p);
                        s = (if v < value (heap s p)
                             then s\<lparr>heap := set_left (heap s) p (Some n)\<rparr>
                             else s\<lparr>heap := set_right (heap s) p (Some n)\<rparr>)
                    in do { s \<leftarrow> avl_insert_walk s (parent (heap s n)); Some (s, True) }) })"

partial_function (option) avl_contains_loop ::
  "('a::linorder) avl_heap \<Rightarrow> nat option \<Rightarrow> 'a \<Rightarrow> bool option" where
  "avl_contains_loop h cur v =
     (case cur of
        None \<Rightarrow> Some False
      | Some c \<Rightarrow>
          if v = value (h c) then Some True
          else if v < value (h c) then avl_contains_loop h (left (h c)) v
          else avl_contains_loop h (right (h c)) v)"

declare avl_contains_loop.simps [code]

definition avl_contains :: "('a::linorder) avl_tree \<Rightarrow> 'a \<Rightarrow> bool option" where
  "avl_contains s v = avl_contains_loop (heap s) (root s) v"

text \<open>The successor search \<open>while succ.left: succ = succ.left\<close>.\<close>

partial_function (option) avl_leftmost :: "'a avl_heap \<Rightarrow> nat \<Rightarrow> nat option" where
  "avl_leftmost h succ =
     (case left (h succ) of None \<Rightarrow> Some succ | Some l \<Rightarrow> avl_leftmost h l)"

declare avl_leftmost.simps [code]

text \<open>\<open>_delete_node\<close> returns the new root of the subtree. \<open>Inl\<close> is its early return
  (the node found has at most one child), \<open>Inr\<close> the state that goes on to the
  rebalancing at the end of the function.\<close>

partial_function (option) avl_delete_node ::
  "('a::linorder) avl_tree \<Rightarrow> nat option \<Rightarrow> 'a \<Rightarrow> ('a avl_tree \<times> nat option) option" where
  "avl_delete_node s node v =
     (case node of
        None \<Rightarrow> Some (s, None)
      | Some n \<Rightarrow>
          do { r \<leftarrow>
                 (if v < value (heap s n) then
                    do { (s, l) \<leftarrow> avl_delete_node s (left (heap s n)) v;
                         let s = s\<lparr>heap := set_left (heap s) n l\<rparr>;
                         Some (Inr (case left (heap s n) of
                                      None \<Rightarrow> s
                                    | Some c \<Rightarrow> s\<lparr>heap := set_parent (heap s) c (Some n)\<rparr>)) }
                  else if v > value (heap s n) then
                    do { (s, r) \<leftarrow> avl_delete_node s (right (heap s n)) v;
                         let s = s\<lparr>heap := set_right (heap s) n r\<rparr>;
                         Some (Inr (case right (heap s n) of
                                      None \<Rightarrow> s
                                    | Some c \<Rightarrow> s\<lparr>heap := set_parent (heap s) c (Some n)\<rparr>)) }
                  else if left (heap s n) = None \<or> right (heap s n) = None then
                    (let replacement =
                           (if left (heap s n) \<noteq> None then left (heap s n) else right (heap s n))
                     in Some (Inl (case replacement of
                                     None \<Rightarrow> s
                                   | Some c \<Rightarrow> s\<lparr>heap := set_parent (heap s) c (parent (heap s n))\<rparr>,
                                   replacement)))
                  else
                    (case right (heap s n) of
                       None \<Rightarrow> None
                     | Some r0 \<Rightarrow>
                         do { succ \<leftarrow> avl_leftmost (heap s) r0;
                              let s = s\<lparr>heap := set_value (heap s) n (value (heap s succ))\<rparr>;
                              (s, r) \<leftarrow> avl_delete_node s (right (heap s n)) (value (heap s succ));
                              let s = s\<lparr>heap := set_right (heap s) n r\<rparr>;
                              Some (Inr (case right (heap s n) of
                                           None \<Rightarrow> s
                                         | Some c \<Rightarrow> s\<lparr>heap := set_parent (heap s) c (Some n)\<rparr>)) }));
               case r of
                 Inl res \<Rightarrow> Some res
               | Inr s \<Rightarrow> do { (s, n) \<leftarrow> avl_rebalance s n True; Some (s, Some n) } })"

declare avl_delete_node.simps [code]

definition avl_delete :: "('a::linorder) avl_tree \<Rightarrow> 'a \<Rightarrow> ('a avl_tree \<times> bool) option" where
  "avl_delete s v =
     do { found \<leftarrow> avl_contains s v;
          if \<not> found then Some (s, False)
          else do { (s, r) \<leftarrow> avl_delete_node s (root s) v;
                    let s = s\<lparr>root := r\<rparr>;
                    Some (case root s of
                            None \<Rightarrow> s
                          | Some c \<Rightarrow> s\<lparr>heap := set_parent (heap s) c None\<rparr>, True) } }"

text \<open>\<open>validate\<close>: \<open>_check\<close> returns the height of the subtree or raises an
  \<open>AssertionError\<close> naming the property and the value of the node (\<open>Inl\<close>).\<close>

datatype 'a assertion_error =
    BST_violated 'a
  | Height_incorrect 'a
  | Balance_violated 'a

partial_function (option) avl_check ::
  "('a::linorder) avl_heap \<Rightarrow> nat option \<Rightarrow> ('a assertion_error + int) option" where
  "avl_check h node =
     (case node of
        None \<Rightarrow> Some (Inr 0)
      | Some n \<Rightarrow>
          do { lr \<leftarrow> avl_check h (left (h n));
               case lr of
                 Inl e \<Rightarrow> Some (Inl e)
               | Inr left_height \<Rightarrow>
                   do { rr \<leftarrow> avl_check h (right (h n));
                        case rr of
                          Inl e \<Rightarrow> Some (Inl e)
                        | Inr right_height \<Rightarrow>
                            (if (case left (h n) of None \<Rightarrow> False
                                 | Some l \<Rightarrow> \<not> value (h l) < value (h n))
                             then Some (Inl (BST_violated (value (h n))))
                             else if (case right (h n) of None \<Rightarrow> False
                                      | Some r \<Rightarrow> \<not> value (h r) > value (h n))
                             then Some (Inl (BST_violated (value (h n))))
                             else let expected_height = 1 + max left_height right_height;
                                      balance = left_height - right_height
                                  in if height (h n) \<noteq> expected_height
                                     then Some (Inl (Height_incorrect (value (h n))))
                                     else if \<not> (-1 \<le> balance \<and> balance \<le> 1)
                                     then Some (Inl (Balance_violated (value (h n))))
                                     else Some (Inr expected_height)) } })"

declare avl_check.simps [code]

definition avl_validate :: "('a::linorder) avl_tree \<Rightarrow> ('a assertion_error + unit) option" where
  "avl_validate s =
     (case root s of
        None \<Rightarrow> Some (Inr ())
      | Some r \<Rightarrow> map_option (map_sum id (\<lambda>_. ())) (avl_check (heap s) (Some r)))"


text \<open>In-order enumeration of the values, as the tests' \<open>inorder_values\<close> does it for
  the AVL tree and the treap.\<close>

partial_function (option) inorder_values ::
  "(nat \<Rightarrow> ('v, nat option, 'm) node_scheme) \<Rightarrow> nat option \<Rightarrow> 'v list option" where
  "inorder_values h n =
     (case n of
        None \<Rightarrow> Some []
      | Some a \<Rightarrow>
          do { l \<leftarrow> inorder_values h (left (h a));
               r \<leftarrow> inorder_values h (right (h a));
               Some (l @ value (h a) # r) })"

declare inorder_values.simps [code]

section \<open>Treap engine (methods/treap_tree.py)\<close>

text \<open>
  The priority of a new node is \<open>random.randint(0, self.max_priority)\<close>. The draw is an
  argument of \<open>treap_insert\<close>: the caller supplies the number the generator returns.
\<close>

type_synonym 'a treap_heap = "nat \<Rightarrow> 'a treap_node"

record 'a treap = "('a treap_node, nat option) tree_state" +
  max_priority :: int

definition treap_empty :: "int \<Rightarrow> 'a treap" where
  "treap_empty mp = \<lparr>rotations_insert = 0, rotations_delete = 0,
     heap = (\<lambda>_. \<lparr>value = undefined, parent = None, left = None, right = None, priority = 0\<rparr>),
     root = None, next_ref = 0, guard_hits = 0, max_priority = mp\<rparr>"

definition treap_new_node :: "'a treap \<Rightarrow> 'a \<Rightarrow> nat option \<Rightarrow> int \<Rightarrow> 'a treap \<times> nat" where
  "treap_new_node s v par prio =
     (s\<lparr>heap := (heap s)(next_ref s :=
           \<lparr>value = v, parent = par, left = None, right = None, priority = prio\<rparr>),
        next_ref := Suc (next_ref s)\<rparr>, next_ref s)"

definition treap_rotate_right :: "'a treap \<Rightarrow> nat \<Rightarrow> bool \<Rightarrow> 'a treap \<times> nat" where
  "treap_rotate_right s y is_delete =
     (case left (heap s y) of
        None \<Rightarrow> (s\<lparr>guard_hits := guard_hits s + 1\<rparr>, y)
      | Some x \<Rightarrow>
          let h = heap s;
              T2 = right (h x);
              h = set_right h x (Some y);
              h = set_left h y T2;
              h = set_parent h x (parent (h y));
              h = set_parent h y (Some x);
              h = (case T2 of None \<Rightarrow> h | Some t \<Rightarrow> set_parent h t (Some y));
              s = (case parent (h x) of
                     None \<Rightarrow> s\<lparr>heap := h, root := Some x\<rparr>
                   | Some p \<Rightarrow>
                       if left (h p) = Some y then s\<lparr>heap := set_left h p (Some x)\<rparr>
                       else s\<lparr>heap := set_right h p (Some x)\<rparr>)
          in (count_rotation is_delete s, x))"

definition treap_rotate_left :: "'a treap \<Rightarrow> nat \<Rightarrow> bool \<Rightarrow> 'a treap \<times> nat" where
  "treap_rotate_left s x is_delete =
     (case right (heap s x) of
        None \<Rightarrow> (s\<lparr>guard_hits := guard_hits s + 1\<rparr>, x)
      | Some y \<Rightarrow>
          let h = heap s;
              T2 = left (h y);
              h = set_left h y (Some x);
              h = set_right h x T2;
              h = set_parent h y (parent (h x));
              h = set_parent h x (Some y);
              h = (case T2 of None \<Rightarrow> h | Some t \<Rightarrow> set_parent h t (Some x));
              s = (case parent (h y) of
                     None \<Rightarrow> s\<lparr>heap := h, root := Some y\<rparr>
                   | Some p \<Rightarrow>
                       if left (h p) = Some x then s\<lparr>heap := set_left h p (Some y)\<rparr>
                       else s\<lparr>heap := set_right h p (Some y)\<rparr>)
          in (count_rotation is_delete s, y))"

partial_function (option) treap_insert_search ::
  "('a::linorder) treap_heap \<Rightarrow> nat option \<Rightarrow> nat option \<Rightarrow> 'a \<Rightarrow> slot option" where
  "treap_insert_search h cur par v =
     (case cur of
        None \<Rightarrow> Some (Slot par)
      | Some c \<Rightarrow>
          if v = value (h c) then Some Duplicate
          else if v < value (h c) then treap_insert_search h (left (h c)) (Some c) v
          else treap_insert_search h (right (h c)) (Some c) v)"

declare treap_insert_search.simps [code]

text \<open>The bubble-up loop \<open>while cur.parent and cur.parent.priority < cur.priority\<close>.\<close>

partial_function (option) treap_bubble_up :: "'a treap \<Rightarrow> nat \<Rightarrow> 'a treap option" where
  "treap_bubble_up s cur =
     (case parent (heap s cur) of
        None \<Rightarrow> Some s
      | Some p \<Rightarrow>
          if priority (heap s p) < priority (heap s cur) then
            (if left (heap s p) = Some cur
             then treap_bubble_up (fst (treap_rotate_right s p False)) cur
             else treap_bubble_up (fst (treap_rotate_left s p False)) cur)
          else Some s)"

declare treap_bubble_up.simps [code]

definition treap_insert :: "('a::linorder) treap \<Rightarrow> 'a \<Rightarrow> int \<Rightarrow> ('a treap \<times> bool) option" where
  "treap_insert s v prio =
     (case root s of
        None \<Rightarrow> (let (s, n) = treap_new_node s v None prio in Some (s\<lparr>root := Some n\<rparr>, True))
      | Some r \<Rightarrow>
          do { sl \<leftarrow> treap_insert_search (heap s) (root s) None v;
               case sl of
                 Duplicate \<Rightarrow> Some (s, False)
               | Slot None \<Rightarrow> None
               | Slot (Some p) \<Rightarrow>
                   (let (s, n) = treap_new_node s v (Some p) prio;
                        s = (if v < value (heap s p)
                             then s\<lparr>heap := set_left (heap s) p (Some n)\<rparr>
                             else s\<lparr>heap := set_right (heap s) p (Some n)\<rparr>)
                    in do { s \<leftarrow> treap_bubble_up s n; Some (s, True) }) })"

partial_function (option) treap_contains_loop ::
  "('a::linorder) treap_heap \<Rightarrow> nat option \<Rightarrow> 'a \<Rightarrow> bool option" where
  "treap_contains_loop h cur v =
     (case cur of
        None \<Rightarrow> Some False
      | Some c \<Rightarrow>
          if v = value (h c) then Some True
          else if v < value (h c) then treap_contains_loop h (left (h c)) v
          else treap_contains_loop h (right (h c)) v)"

declare treap_contains_loop.simps [code]

definition treap_contains :: "('a::linorder) treap \<Rightarrow> 'a \<Rightarrow> bool option" where
  "treap_contains s v = treap_contains_loop (heap s) (root s) v"

text \<open>The search of \<open>delete\<close>: \<open>while cur and cur.value != value\<close>.\<close>

partial_function (option) treap_delete_search ::
  "('a::linorder) treap_heap \<Rightarrow> nat option \<Rightarrow> 'a \<Rightarrow> nat option option" where
  "treap_delete_search h cur v =
     (case cur of
        None \<Rightarrow> Some None
      | Some c \<Rightarrow>
          if value (h c) \<noteq> v then
            (if v < value (h c) then treap_delete_search h (left (h c)) v
             else treap_delete_search h (right (h c)) v)
          else Some (Some c))"

declare treap_delete_search.simps [code]

text \<open>One pass of the rotate-down loop body, and the loop \<open>while cur.left or cur.right\<close>.
  The priority of a child that is \<open>None\<close> is never read: the first two branches catch it.\<close>

definition treap_rotate_down_step :: "'a treap \<Rightarrow> nat \<Rightarrow> 'a treap option" where
  "treap_rotate_down_step s cur =
     (case left (heap s cur) of
        None \<Rightarrow> Some (fst (treap_rotate_left s cur True))
      | Some l \<Rightarrow>
          (case right (heap s cur) of
             None \<Rightarrow> Some (fst (treap_rotate_right s cur True))
           | Some r \<Rightarrow>
               if priority (heap s l) > priority (heap s r)
               then Some (fst (treap_rotate_right s cur True))
               else Some (fst (treap_rotate_left s cur True))))"

partial_function (option) treap_rotate_down :: "'a treap \<Rightarrow> nat \<Rightarrow> 'a treap option" where
  "treap_rotate_down s cur =
     (if left (heap s cur) \<noteq> None \<or> right (heap s cur) \<noteq> None
      then (case treap_rotate_down_step s cur of
              None \<Rightarrow> None
            | Some s \<Rightarrow> treap_rotate_down s cur)
      else Some s)"

declare treap_rotate_down.simps [code]

definition treap_detach :: "'a treap \<Rightarrow> nat \<Rightarrow> 'a treap" where
  "treap_detach s cur =
     (case parent (heap s cur) of
        None \<Rightarrow> s\<lparr>root := None\<rparr>
      | Some p \<Rightarrow>
          if left (heap s p) = Some cur then s\<lparr>heap := set_left (heap s) p None\<rparr>
          else s\<lparr>heap := set_right (heap s) p None\<rparr>)"

definition treap_delete :: "('a::linorder) treap \<Rightarrow> 'a \<Rightarrow> ('a treap \<times> bool) option" where
  "treap_delete s v =
     do { found \<leftarrow> treap_delete_search (heap s) (root s) v;
          case found of
            None \<Rightarrow> Some (s, False)
          | Some cur \<Rightarrow>
              do { s \<leftarrow> treap_rotate_down s cur;
                   Some (treap_detach s cur, True) } }"


section \<open>Red-Black engine (methods/rb_tree.py)\<close>

type_synonym 'a rb_heap = "nat \<Rightarrow> 'a rb_node"

record 'a rb_tree = "('a rb_node, nat) tree_state" +
  nil :: nat

text \<open>\<open>__init__\<close>: the sentinel is the first object allocated; it is BLACK, has no value
  and is its own parent and children.\<close>

definition rb_empty :: "'a rb_tree" where
  "rb_empty = \<lparr>rotations_insert = 0, rotations_delete = 0,
     heap = (\<lambda>_. \<lparr>value = None, parent = 0, left = 0, right = 0, color = BLACK\<rparr>),
     root = 0, next_ref = 1, guard_hits = 0, nil = 0\<rparr>"

definition rb_new_node :: "'a rb_tree \<Rightarrow> 'a \<Rightarrow> 'a rb_tree \<times> nat" where
  "rb_new_node s v =
     (s\<lparr>heap := (heap s)(next_ref s :=
           \<lparr>value = Some v, parent = nil s, left = nil s, right = nil s, color = RED\<rparr>),
        next_ref := Suc (next_ref s)\<rparr>, next_ref s)"

partial_function (option) rb_contains_loop ::
  "('a::linorder) rb_heap \<Rightarrow> nat \<Rightarrow> nat \<Rightarrow> 'a \<Rightarrow> bool option" where
  "rb_contains_loop h nl cur v =
     (if cur \<noteq> nl then
        (case value (h cur) of
           None \<Rightarrow> None
         | Some cv \<Rightarrow>
             if v = cv then Some True
             else if v < cv then rb_contains_loop h nl (left (h cur)) v
             else rb_contains_loop h nl (right (h cur)) v)
      else Some False)"

declare rb_contains_loop.simps [code]

definition rb_contains :: "('a::linorder) rb_tree \<Rightarrow> 'a \<Rightarrow> bool option" where
  "rb_contains s v = rb_contains_loop (heap s) (nil s) (root s) v"

definition rb_left_rotate :: "'a rb_tree \<Rightarrow> nat \<Rightarrow> bool \<Rightarrow> 'a rb_tree" where
  "rb_left_rotate s x is_delete =
     (let h = heap s; y = right (h x) in
      if y = nil s then s\<lparr>guard_hits := guard_hits s + 1\<rparr>
      else
        let h = set_right h x (left (h y));
            h = (if left (h y) \<noteq> nil s then set_parent h (left (h y)) x else h);
            h = set_parent h y (parent (h x));
            s = (if parent (h x) = nil s then s\<lparr>heap := h, root := y\<rparr>
                 else if x = left (h (parent (h x)))
                 then s\<lparr>heap := set_left h (parent (h x)) y\<rparr>
                 else s\<lparr>heap := set_right h (parent (h x)) y\<rparr>);
            h = heap s;
            h = set_left h y x;
            h = set_parent h x y
        in count_rotation is_delete (s\<lparr>heap := h\<rparr>))"

definition rb_right_rotate :: "'a rb_tree \<Rightarrow> nat \<Rightarrow> bool \<Rightarrow> 'a rb_tree" where
  "rb_right_rotate s y is_delete =
     (let h = heap s; x = left (h y) in
      if x = nil s then s\<lparr>guard_hits := guard_hits s + 1\<rparr>
      else
        let h = set_left h y (right (h x));
            h = (if right (h x) \<noteq> nil s then set_parent h (right (h x)) y else h);
            h = set_parent h x (parent (h y));
            s = (if parent (h y) = nil s then s\<lparr>heap := h, root := x\<rparr>
                 else if y = left (h (parent (h y)))
                 then s\<lparr>heap := set_left h (parent (h y)) x\<rparr>
                 else s\<lparr>heap := set_right h (parent (h y)) x\<rparr>);
            h = heap s;
            h = set_right h x y;
            h = set_parent h y x
        in count_rotation is_delete (s\<lparr>heap := h\<rparr>))"

text \<open>The descent of \<open>insert\<close>: \<open>Inl ()\<close> is the early \<open>return False\<close>, \<open>Inr y\<close> the parent
  found for the new node.\<close>

partial_function (option) rb_insert_search ::
  "('a::linorder) rb_heap \<Rightarrow> nat \<Rightarrow> nat \<Rightarrow> nat \<Rightarrow> 'a \<Rightarrow> (unit + nat) option" where
  "rb_insert_search h nl x y v =
     (if x \<noteq> nl then
        (case value (h x) of
           None \<Rightarrow> None
         | Some xv \<Rightarrow>
             if v = xv then Some (Inl ())
             else if v < xv then rb_insert_search h nl (left (h x)) x v
             else rb_insert_search h nl (right (h x)) x v)
      else Some (Inr y))"

declare rb_insert_search.simps [code]

text \<open>The body of the loop of \<open>_insert_fixup\<close>; it returns the state and the new \<open>z\<close>.\<close>

definition rb_insert_fixup_body :: "'a rb_tree \<Rightarrow> nat \<Rightarrow> 'a rb_tree \<times> nat" where
  "rb_insert_fixup_body s z =
     (let h = heap s in
      if parent (h z) = left (h (parent (h (parent (h z))))) then
        (let y = right (h (parent (h (parent (h z))))) in
         if color (h y) = RED then
           (let h = set_color h (parent (h z)) BLACK;
                h = set_color h y BLACK;
                h = set_color h (parent (h (parent (h z)))) RED
            in (s\<lparr>heap := h\<rparr>, parent (h (parent (h z)))))
         else
           (let (s, z) = (if z = right (h (parent (h z)))
                          then (rb_left_rotate s (parent (h z)) False, parent (h z))
                          else (s, z));
                h = heap s;
                h = set_color h (parent (h z)) BLACK;
                h = set_color h (parent (h (parent (h z)))) RED;
                s = rb_right_rotate (s\<lparr>heap := h\<rparr>) (parent (h (parent (h z)))) False
            in (s, z)))
      else
        (let y = left (h (parent (h (parent (h z))))) in
         if color (h y) = RED then
           (let h = set_color h (parent (h z)) BLACK;
                h = set_color h y BLACK;
                h = set_color h (parent (h (parent (h z)))) RED
            in (s\<lparr>heap := h\<rparr>, parent (h (parent (h z)))))
         else
           (let (s, z) = (if z = left (h (parent (h z)))
                          then (rb_right_rotate s (parent (h z)) False, parent (h z))
                          else (s, z));
                h = heap s;
                h = set_color h (parent (h z)) BLACK;
                h = set_color h (parent (h (parent (h z)))) RED;
                s = rb_left_rotate (s\<lparr>heap := h\<rparr>) (parent (h (parent (h z)))) False
            in (s, z))))"

partial_function (option) rb_insert_fixup_loop :: "'a rb_tree \<Rightarrow> nat \<Rightarrow> 'a rb_tree option" where
  "rb_insert_fixup_loop s z =
     (if color (heap s (parent (heap s z))) = RED
      then (case rb_insert_fixup_body s z of (s', z') \<Rightarrow> rb_insert_fixup_loop s' z')
      else Some s)"

declare rb_insert_fixup_loop.simps [code]

definition rb_insert_fixup :: "'a rb_tree \<Rightarrow> nat \<Rightarrow> 'a rb_tree option" where
  "rb_insert_fixup s z =
     do { s \<leftarrow> rb_insert_fixup_loop s z;
          Some (s\<lparr>heap := set_color (heap s) (root s) BLACK\<rparr>) }"

definition rb_insert :: "('a::linorder) rb_tree \<Rightarrow> 'a \<Rightarrow> ('a rb_tree \<times> bool) option" where
  "rb_insert s v =
     (let (s, node) = rb_new_node s v in
      do { found \<leftarrow> rb_insert_search (heap s) (nil s) (root s) (nil s) v;
           case found of
             Inl _ \<Rightarrow> Some (s, False)
           | Inr y \<Rightarrow>
               do { let s = s\<lparr>heap := set_parent (heap s) node y\<rparr>;
                    s \<leftarrow> (if y = nil s then Some (s\<lparr>root := node\<rparr>)
                          else (case value (heap s y) of
                                  None \<Rightarrow> None
                                | Some yv \<Rightarrow>
                                    if v < yv then Some (s\<lparr>heap := set_left (heap s) y node\<rparr>)
                                    else Some (s\<lparr>heap := set_right (heap s) y node\<rparr>)));
                    s \<leftarrow> rb_insert_fixup s node;
                    Some (s, True) } })"

definition rb_transplant :: "'a rb_tree \<Rightarrow> nat \<Rightarrow> nat \<Rightarrow> 'a rb_tree" where
  "rb_transplant s u v =
     (let h = heap s;
          s = (if parent (h u) = nil s then s\<lparr>root := v\<rparr>
               else if u = left (h (parent (h u)))
               then s\<lparr>heap := set_left h (parent (h u)) v\<rparr>
               else s\<lparr>heap := set_right h (parent (h u)) v\<rparr>)
      in s\<lparr>heap := set_parent (heap s) v (parent (heap s u))\<rparr>)"

partial_function (option) rb_minimum :: "'a rb_heap \<Rightarrow> nat \<Rightarrow> nat \<Rightarrow> nat option" where
  "rb_minimum h nl node =
     (if left (h node) \<noteq> nl then rb_minimum h nl (left (h node)) else Some node)"

declare rb_minimum.simps [code]

text \<open>The search of \<open>delete\<close>, a \<open>while ... else\<close>: \<open>None\<close> inside is the \<open>else\<close> branch
  (\<open>return False\<close>), \<open>Some z\<close> the \<open>break\<close>.\<close>

partial_function (option) rb_delete_search ::
  "('a::linorder) rb_heap \<Rightarrow> nat \<Rightarrow> nat \<Rightarrow> 'a \<Rightarrow> nat option option" where
  "rb_delete_search h nl z v =
     (if z \<noteq> nl then
        (case value (h z) of
           None \<Rightarrow> None
         | Some zv \<Rightarrow>
             if v = zv then Some (Some z)
             else if v < zv then rb_delete_search h nl (left (h z)) v
             else rb_delete_search h nl (right (h z)) v)
      else Some None)"

declare rb_delete_search.simps [code]

text \<open>The body of the loop of \<open>_delete_fixup\<close>; it returns the state and the new \<open>x\<close>.\<close>

definition rb_delete_fixup_body :: "'a rb_tree \<Rightarrow> nat \<Rightarrow> 'a rb_tree \<times> nat" where
  "rb_delete_fixup_body s x =
     (if x = left (heap s (parent (heap s x))) then
        (let w = right (heap s (parent (heap s x)));
             (s, w) = (if color (heap s w) = RED then
                         (let h = set_color (heap s) w BLACK;
                              h = set_color h (parent (h x)) RED;
                              s = rb_left_rotate (s\<lparr>heap := h\<rparr>) (parent (h x)) True
                          in (s, right (heap s (parent (heap s x)))))
                       else (s, w))
         in if color (heap s (left (heap s w))) = BLACK \<and> color (heap s (right (heap s w))) = BLACK
            then (let h = set_color (heap s) w RED
                  in (s\<lparr>heap := h\<rparr>, parent (h x)))
            else
              (let (s, w) = (if color (heap s (right (heap s w))) = BLACK then
                               (let h = set_color (heap s) (left (heap s w)) BLACK;
                                    h = set_color h w RED;
                                    s = rb_right_rotate (s\<lparr>heap := h\<rparr>) w True
                                in (s, right (heap s (parent (heap s x)))))
                             else (s, w));
                   h = heap s;
                   h = set_color h w (color (h (parent (h x))));
                   h = set_color h (parent (h x)) BLACK;
                   h = set_color h (right (h w)) BLACK;
                   s = rb_left_rotate (s\<lparr>heap := h\<rparr>) (parent (h x)) True
               in (s, root s)))
      else
        (let w = left (heap s (parent (heap s x)));
             (s, w) = (if color (heap s w) = RED then
                         (let h = set_color (heap s) w BLACK;
                              h = set_color h (parent (h x)) RED;
                              s = rb_right_rotate (s\<lparr>heap := h\<rparr>) (parent (h x)) True
                          in (s, left (heap s (parent (heap s x)))))
                       else (s, w))
         in if color (heap s (right (heap s w))) = BLACK \<and> color (heap s (left (heap s w))) = BLACK
            then (let h = set_color (heap s) w RED
                  in (s\<lparr>heap := h\<rparr>, parent (h x)))
            else
              (let (s, w) = (if color (heap s (left (heap s w))) = BLACK then
                               (let h = set_color (heap s) (right (heap s w)) BLACK;
                                    h = set_color h w RED;
                                    s = rb_left_rotate (s\<lparr>heap := h\<rparr>) w True
                                in (s, left (heap s (parent (heap s x)))))
                             else (s, w));
                   h = heap s;
                   h = set_color h w (color (h (parent (h x))));
                   h = set_color h (parent (h x)) BLACK;
                   h = set_color h (left (h w)) BLACK;
                   s = rb_right_rotate (s\<lparr>heap := h\<rparr>) (parent (h x)) True
               in (s, root s))))"

partial_function (option) rb_delete_fixup_loop :: "'a rb_tree \<Rightarrow> nat \<Rightarrow> ('a rb_tree \<times> nat) option" where
  "rb_delete_fixup_loop s x =
     (if x \<noteq> root s \<and> color (heap s x) = BLACK
      then (case rb_delete_fixup_body s x of (s', x') \<Rightarrow> rb_delete_fixup_loop s' x')
      else Some (s, x))"

declare rb_delete_fixup_loop.simps [code]

definition rb_delete_fixup :: "'a rb_tree \<Rightarrow> nat \<Rightarrow> 'a rb_tree option" where
  "rb_delete_fixup s x =
     do { (s, x) \<leftarrow> rb_delete_fixup_loop s x;
          Some (s\<lparr>heap := set_color (heap s) x BLACK\<rparr>) }"

definition rb_delete :: "('a::linorder) rb_tree \<Rightarrow> 'a \<Rightarrow> ('a rb_tree \<times> bool) option" where
  "rb_delete s v =
     do { found \<leftarrow> rb_delete_search (heap s) (nil s) (root s) v;
          case found of
            None \<Rightarrow> Some (s, False)
          | Some z \<Rightarrow>
              do { (s, x, y_original_color) \<leftarrow>
                     (if left (heap s z) = nil s then
                        Some (rb_transplant s z (right (heap s z)), right (heap s z), color (heap s z))
                      else if right (heap s z) = nil s then
                        Some (rb_transplant s z (left (heap s z)), left (heap s z), color (heap s z))
                      else
                        do { y \<leftarrow> rb_minimum (heap s) (nil s) (right (heap s z));
                             let y_original_color = color (heap s y);
                             let x = right (heap s y);
                             let s = (if parent (heap s y) = z
                                      then s\<lparr>heap := set_parent (heap s) x y\<rparr>
                                      else (let s = rb_transplant s y (right (heap s y));
                                                h = set_right (heap s) y (right (heap s z));
                                                h = set_parent h (right (h y)) y
                                            in s\<lparr>heap := h\<rparr>));
                             let s = rb_transplant s z y;
                             let h = set_left (heap s) y (left (heap s z));
                             let h = set_parent h (left (h y)) y;
                             let h = set_color h y (color (h z));
                             Some (s\<lparr>heap := h\<rparr>, x, y_original_color) });
                   s \<leftarrow> (if y_original_color = BLACK then rb_delete_fixup s x else Some s);
                   Some (s, True) } }"

text \<open>In-order enumeration for the Red-Black tree, as its tests' \<open>inorder_values\<close>.\<close>

partial_function (option) rb_inorder_rec :: "'a rb_heap \<Rightarrow> nat \<Rightarrow> nat \<Rightarrow> 'a option list option" where
  "rb_inorder_rec h nl n =
     (if n = nl then Some []
      else do { l \<leftarrow> rb_inorder_rec h nl (left (h n));
                r \<leftarrow> rb_inorder_rec h nl (right (h n));
                Some (l @ value (h n) # r) })"

declare rb_inorder_rec.simps [code]

definition rb_inorder_values :: "'a rb_tree \<Rightarrow> 'a option list option" where
  "rb_inorder_values s = (if root s \<noteq> nil s then rb_inorder_rec (heap s) (nil s) (root s) else Some [])"

section \<open>Reading fields after an assignment\<close>

lemma set_value_get [simp]:
  "value (set_value h p v q) = (if q = p then v else value (h q))"
  "parent (set_value h p v q) = parent (h q)"
  "left (set_value h p v q) = left (h q)"
  "right (set_value h p v q) = right (h q)"
  "node.more (set_value h p v q) = node.more (h q)"
  by (simp_all add: set_value_def)

lemma set_parent_get [simp]:
  "value (set_parent h p v q) = value (h q)"
  "parent (set_parent h p v q) = (if q = p then v else parent (h q))"
  "left (set_parent h p v q) = left (h q)"
  "right (set_parent h p v q) = right (h q)"
  "node.more (set_parent h p v q) = node.more (h q)"
  by (simp_all add: set_parent_def)

lemma set_left_get [simp]:
  "value (set_left h p v q) = value (h q)"
  "parent (set_left h p v q) = parent (h q)"
  "left (set_left h p v q) = (if q = p then v else left (h q))"
  "right (set_left h p v q) = right (h q)"
  "node.more (set_left h p v q) = node.more (h q)"
  by (simp_all add: set_left_def)

lemma set_right_get [simp]:
  "value (set_right h p v q) = value (h q)"
  "parent (set_right h p v q) = parent (h q)"
  "left (set_right h p v q) = left (h q)"
  "right (set_right h p v q) = (if q = p then v else right (h q))"
  "node.more (set_right h p v q) = node.more (h q)"
  by (simp_all add: set_right_def)

lemma set_height_get [simp]:
  "value (set_height h p v q) = value (h q)"
  "parent (set_height h p v q) = parent (h q)"
  "left (set_height h p v q) = left (h q)"
  "right (set_height h p v q) = right (h q)"
  "height (set_height h p v q) = (if q = p then v else height (h q))"
  by (simp_all add: set_height_def)

lemma set_color_get [simp]:
  "value (set_color h p v q) = value (h q)"
  "parent (set_color h p v q) = parent (h q)"
  "left (set_color h p v q) = left (h q)"
  "right (set_color h p v q) = right (h q)"
  "color (set_color h p v q) = (if q = p then v else color (h q))"
  by (simp_all add: set_color_def)

lemma height_set [simp]:
  "height (set_value h p v q) = height (h q)"
  "height (set_parent h p w q) = height (h q)"
  "height (set_left h p w q) = height (h q)"
  "height (set_right h p w q) = height (h q)"
  by (simp_all add: set_value_def set_parent_def set_left_def set_right_def)

lemma priority_set [simp]:
  "priority (set_value h p v q) = priority (h q)"
  "priority (set_parent h p w q) = priority (h q)"
  "priority (set_left h p w q) = priority (h q)"
  "priority (set_right h p w q) = priority (h q)"
  by (simp_all add: set_value_def set_parent_def set_left_def set_right_def)

lemma color_set [simp]:
  "color (set_value h p v q) = color (h q)"
  "color (set_parent h p w q) = color (h q)"
  "color (set_left h p w q) = color (h q)"
  "color (set_right h p w q) = color (h q)"
  by (simp_all add: set_value_def set_parent_def set_left_def set_right_def)

section \<open>Shapes\<close>

datatype ptree = Tip | Br ptree nat ptree

fun ptr :: "ptree \<Rightarrow> nat option" where
  "ptr Tip = None"
| "ptr (Br l a r) = Some a"

fun addrs :: "ptree \<Rightarrow> nat set" where
  "addrs Tip = {}"
| "addrs (Br l a r) = insert a (addrs l \<union> addrs r)"

fun inorder_refs :: "ptree \<Rightarrow> nat list" where
  "inorder_refs Tip = []"
| "inorder_refs (Br l a r) = inorder_refs l @ a # inorder_refs r"

fun shaped :: "(nat option \<Rightarrow> 'p) \<Rightarrow> (nat \<Rightarrow> ('v, 'p, 'm) node_scheme) \<Rightarrow> nat option \<Rightarrow> ptree \<Rightarrow> bool" where
  "shaped enc h par Tip = True"
| "shaped enc h par (Br l a r) =
     (parent (h a) = enc par \<and> left (h a) = enc (ptr l) \<and> right (h a) = enc (ptr r) \<and>
      shaped enc h (Some a) l \<and> shaped enc h (Some a) r \<and>
      a \<notin> addrs l \<and> a \<notin> addrs r \<and> addrs l \<inter> addrs r = {})"

datatype side = Lft | Rgt

type_synonym frame = "side \<times> nat \<times> ptree"

fun fill :: "frame \<Rightarrow> ptree \<Rightarrow> ptree" where
  "fill (Lft, q, s) t = Br t q s"
| "fill (Rgt, q, s) t = Br s q t"

fun plug :: "frame list \<Rightarrow> ptree \<Rightarrow> ptree" where
  "plug [] t = t"
| "plug (f # c) t = plug c (fill f t)"

fun cpar :: "frame list \<Rightarrow> nat option" where
  "cpar [] = None"
| "cpar ((d, q, s) # c) = Some q"

fun caddrs :: "frame list \<Rightarrow> nat set" where
  "caddrs [] = {}"
| "caddrs ((d, q, s) # c) = insert q (addrs s) \<union> caddrs c"

fun cbefore :: "frame list \<Rightarrow> nat list" where
  "cbefore [] = []"
| "cbefore ((Lft, q, s) # c) = cbefore c"
| "cbefore ((Rgt, q, s) # c) = cbefore c @ inorder_refs s @ [q]"

fun cafter :: "frame list \<Rightarrow> nat list" where
  "cafter [] = []"
| "cafter ((Lft, q, s) # c) = q # inorder_refs s @ cafter c"
| "cafter ((Rgt, q, s) # c) = cafter c"

fun cshaped :: "(nat option \<Rightarrow> 'p) \<Rightarrow> (nat \<Rightarrow> ('v, 'p, 'm) node_scheme) \<Rightarrow> 'p \<Rightarrow> frame list \<Rightarrow> nat option \<Rightarrow> bool" where
  "cshaped enc h rt [] p = (rt = enc p)"
| "cshaped enc h rt ((d, q, s) # c) p =
     (parent (h q) = enc (cpar c) \<and>
      (case d of Lft \<Rightarrow> left (h q) = enc p \<and> right (h q) = enc (ptr s)
               | Rgt \<Rightarrow> right (h q) = enc p \<and> left (h q) = enc (ptr s)) \<and>
      shaped enc h (Some q) s \<and> q \<notin> addrs s \<and> insert q (addrs s) \<inter> caddrs c = {} \<and>
      cshaped enc h rt c (Some q))"

lemma set_inorder_refs [simp]: "set (inorder_refs t) = addrs t"
  by (induction t) auto

lemma addrs_fill [simp]: "addrs (fill f t) = insert (fst (snd f)) (addrs (snd (snd f))) \<union> addrs t"
  by (cases f; cases "fst f") auto

lemma addrs_plug [simp]: "addrs (plug c t) = caddrs c \<union> addrs t"
  by (induction c arbitrary: t) auto

lemma inorder_refs_plug: "inorder_refs (plug c t) = cbefore c @ inorder_refs t @ cafter c"
proof (induction c arbitrary: t)
  case Nil
  show ?case by simp
next
  case (Cons f c)
  obtain d q s where f: "f = (d, q, s)" by (cases f)
  show ?case unfolding f by (cases d) (simp_all add: Cons)
qed

lemma ptr_plug_nonempty: "c \<noteq> [] \<Longrightarrow> ptr (plug c t) = ptr (plug c t')"
proof (induction c arbitrary: t t')
  case Nil
  then show ?case by simp
next
  case (Cons f c)
  show ?case
  proof (cases c)
    case Nil
    then show ?thesis by (cases f; cases "fst f") simp_all
  next
    case (Cons g c')
    then have "c \<noteq> []" by simp
    from Cons.IH [OF this] show ?thesis by simp
  qed
qed

lemma shaped_plug:
  "shaped enc h None (plug c t) \<and> rt = enc (ptr (plug c t)) \<longleftrightarrow>
   cshaped enc h rt c (ptr t) \<and> shaped enc h (cpar c) t \<and> addrs t \<inter> caddrs c = {}"
proof (induction c arbitrary: t)
  case Nil
  show ?case by auto
next
  case (Cons f c)
  obtain d q s where f: "f = (d, q, s)" by (cases f)
  show ?case
    unfolding f using Cons [of "fill (d, q, s) t"]
    by (cases d) (auto simp: Int_commute)
qed

lemma shaped_cong:
  assumes "\<And>a. a \<in> addrs t \<Longrightarrow> parent (h' a) = parent (h a) \<and> left (h' a) = left (h a) \<and> right (h' a) = right (h a)"
  shows "shaped enc h' par t = shaped enc h par t"
  using assms by (induction t arbitrary: par) auto

lemma cshaped_cong:
  assumes "\<And>a. a \<in> caddrs c \<Longrightarrow> parent (h' a) = parent (h a) \<and> left (h' a) = left (h a) \<and> right (h' a) = right (h a)"
  shows "cshaped enc h' rt c p = cshaped enc h rt c p"
  using assms
proof (induction c arbitrary: p)
  case Nil
  show ?case by simp
next
  case (Cons f c)
  obtain d q s where f: "f = (d, q, s)" by (cases f)
  have s: "shaped enc h' (Some q) s = shaped enc h (Some q) s"
    by (rule shaped_cong) (use Cons.prems f in auto)
  have c: "cshaped enc h' rt c (Some q) = cshaped enc h rt c (Some q)"
    by (rule Cons.IH) (use Cons.prems f in auto)
  show ?case unfolding f using Cons.prems [of q] s c by (cases d) (simp_all add: f)
qed

fun hole_ok :: "(nat option \<Rightarrow> 'p) \<Rightarrow> (nat \<Rightarrow> ('v, 'p, 'm) node_scheme) \<Rightarrow> (nat \<Rightarrow> ('v, 'p, 'm) node_scheme) \<Rightarrow> 'p \<Rightarrow> 'p \<Rightarrow> frame list \<Rightarrow> nat option \<Rightarrow> bool" where
  "hole_ok enc h h' rt rt' [] p' = (rt' = enc p')"
| "hole_ok enc h h' rt rt' ((d, q, s) # c) p' =
     (rt' = rt \<and> parent (h' q) = parent (h q) \<and>
      (case d of Lft \<Rightarrow> left (h' q) = enc p' \<and> right (h' q) = right (h q)
               | Rgt \<Rightarrow> right (h' q) = enc p' \<and> left (h' q) = left (h q)))"

definition same_links :: "(nat \<Rightarrow> ('v, 'p, 'm) node_scheme) \<Rightarrow> (nat \<Rightarrow> ('v, 'p, 'm) node_scheme) \<Rightarrow> nat \<Rightarrow> bool" where
  "same_links h h' a \<longleftrightarrow> parent (h' a) = parent (h a) \<and> left (h' a) = left (h a) \<and> right (h' a) = right (h a)"

lemma shaped_same:
  "shaped enc h par t \<Longrightarrow> (\<And>a. a \<in> addrs t \<Longrightarrow> same_links h h' a) \<Longrightarrow> shaped enc h' par t"
  using shaped_cong [of t h' h enc par] by (auto simp: same_links_def)

lemma shaped_reparent:
  assumes "shaped enc h par t"
    and "\<And>a. a \<in> addrs t \<Longrightarrow> ptr t \<noteq> Some a \<Longrightarrow> same_links h h' a"
    and "\<And>a. ptr t = Some a \<Longrightarrow> parent (h' a) = enc par' \<and> left (h' a) = left (h a) \<and> right (h' a) = right (h a)"
  shows "shaped enc h' par' t"
proof (cases t)
  case Tip
  then show ?thesis by simp
next
  case (Br l a r)
  have l: "shaped enc h' (Some a) l"
    by (rule shaped_same [of enc h]) (use assms Br in auto)
  have r: "shaped enc h' (Some a) r"
    by (rule shaped_same [of enc h]) (use assms Br in auto)
  show ?thesis using assms(1) assms(3) [of a] l r Br by simp
qed

lemma cshaped_hole:
  assumes "cshaped enc h rt c p"
    and "\<And>a. a \<in> caddrs c \<Longrightarrow> cpar c \<noteq> Some a \<Longrightarrow> same_links h h' a"
    and "hole_ok enc h h' rt rt' c p'"
  shows "cshaped enc h' rt' c p'"
proof (cases c)
  case Nil
  then show ?thesis using assms by simp
next
  case (Cons f c')
  obtain d q s where f: "f = (d, q, s)" by (cases f)
  have s: "shaped enc h' (Some q) s"
    by (rule shaped_same [of enc h]) (use assms Cons f in auto)
  have "cshaped enc h' rt c' (Some q) = cshaped enc h rt c' (Some q)"
    by (rule cshaped_cong) (use assms Cons f in \<open>auto simp: same_links_def\<close>)
  then show ?thesis using assms(1,3) s unfolding Cons f by (cases d) auto
qed

text \<open>The links a right rotation at y (left child x) leaves behind.\<close>

lemma shaped_rotated_right:
  assumes "shaped enc h par (Br (Br a x b) y cc)"
    and "parent (h' x) = enc par" "left (h' x) = left (h x)" "right (h' x) = enc (Some y)"
    and "parent (h' y) = enc (Some x)" "left (h' y) = right (h x)" "right (h' y) = right (h y)"
    and "\<And>p. p \<in> addrs a \<union> addrs cc \<Longrightarrow> same_links h h' p"
    and "\<And>p. p \<in> addrs b \<Longrightarrow> ptr b \<noteq> Some p \<Longrightarrow> same_links h h' p"
    and "\<And>p. ptr b = Some p \<Longrightarrow> parent (h' p) = enc (Some y) \<and> left (h' p) = left (h p) \<and> right (h' p) = right (h p)"
  shows "shaped enc h' par (Br a x (Br b y cc))"
proof -
  have a: "shaped enc h' (Some x) a"
    by (rule shaped_same [of enc h]) (use assms in auto)
  have c: "shaped enc h' (Some y) cc"
    by (rule shaped_same [of enc h]) (use assms in auto)
  have b: "shaped enc h' (Some y) b"
    by (rule shaped_reparent [of enc h "Some x"]) (use assms in auto)
  show ?thesis using assms(1-7) a b c by auto
qed

lemma shaped_rotated_left:
  assumes "shaped enc h par (Br a x (Br b y cc))"
    and "parent (h' y) = enc par" "right (h' y) = right (h y)" "left (h' y) = enc (Some x)"
    and "parent (h' x) = enc (Some y)" "right (h' x) = left (h y)" "left (h' x) = left (h x)"
    and "\<And>p. p \<in> addrs a \<union> addrs cc \<Longrightarrow> same_links h h' p"
    and "\<And>p. p \<in> addrs b \<Longrightarrow> ptr b \<noteq> Some p \<Longrightarrow> same_links h h' p"
    and "\<And>p. ptr b = Some p \<Longrightarrow> parent (h' p) = enc (Some x) \<and> left (h' p) = left (h p) \<and> right (h' p) = right (h p)"
  shows "shaped enc h' par (Br (Br a x b) y cc)"
proof -
  have a: "shaped enc h' (Some x) a"
    by (rule shaped_same [of enc h]) (use assms in auto)
  have c: "shaped enc h' (Some y) cc"
    by (rule shaped_same [of enc h]) (use assms in auto)
  have b: "shaped enc h' (Some x) b"
    by (rule shaped_reparent [of enc h "Some y"]) (use assms in auto)
  show ?thesis using assms(1-7) a b c by auto
qed

lemma shaped_plugI:
  "cshaped (\<lambda>p. p) h rt c (ptr t) \<Longrightarrow> shaped (\<lambda>p. p) h (cpar c) t \<Longrightarrow> addrs t \<inter> caddrs c = {} \<Longrightarrow>
   shaped (\<lambda>p. p) h None (plug c t) \<and> rt = ptr (plug c t)"
  using shaped_plug [of "\<lambda>p. p" h c t rt] by simp

lemma shaped_plugD:
  "shaped (\<lambda>p. p) h None (plug c t) \<Longrightarrow> rt = ptr (plug c t) \<Longrightarrow>
   cshaped (\<lambda>p. p) h rt c (ptr t) \<and> shaped (\<lambda>p. p) h (cpar c) t \<and> addrs t \<inter> caddrs c = {}"
  using shaped_plug [of "\<lambda>p. p" h c t rt] by simp

lemma ptr_in_addrs: "ptr t = Some a \<Longrightarrow> a \<in> addrs t"
  by (cases t) auto

lemma cpar_in_caddrs: "cpar c = Some q \<Longrightarrow> q \<in> caddrs c"
  by (cases c) auto

lemma shaped_ptr_None [simp]: "ptr t = None \<longleftrightarrow> t = Tip"
  by (cases t) auto

lemma shaped_set_data [simp]:
  "shaped enc (set_value h p v) par t = shaped enc h par t"
  by (rule shaped_cong) simp

lemma shaped_set_height [simp]:
  "shaped enc (set_height h p k) par t = shaped enc h par t"
  by (rule shaped_cong) simp

lemma shaped_set_color [simp]:
  "shaped enc (set_color h p k) par t = shaped enc h par t"
  by (rule shaped_cong) simp

lemma shaped_set_link [simp]:
  "p \<notin> addrs t \<Longrightarrow> shaped enc (set_parent h p w) par t = shaped enc h par t"
  "p \<notin> addrs t \<Longrightarrow> shaped enc (set_left h p w) par t = shaped enc h par t"
  "p \<notin> addrs t \<Longrightarrow> shaped enc (set_right h p w) par t = shaped enc h par t"
  by (rule shaped_cong; auto)+

lemma cshaped_set_data [simp]:
  "cshaped enc (set_value h p v) rt c q = cshaped enc h rt c q"
  by (rule cshaped_cong) simp

lemma cshaped_set_height [simp]:
  "cshaped enc (set_height h p k) rt c q = cshaped enc h rt c q"
  by (rule cshaped_cong) simp

lemma cshaped_set_color [simp]:
  "cshaped enc (set_color h p k) rt c q = cshaped enc h rt c q"
  by (rule cshaped_cong) simp

lemma cshaped_set_link [simp]:
  "p \<notin> caddrs c \<Longrightarrow> cshaped enc (set_parent h p w) rt c q = cshaped enc h rt c q"
  "p \<notin> caddrs c \<Longrightarrow> cshaped enc (set_left h p w) rt c q = cshaped enc h rt c q"
  "p \<notin> caddrs c \<Longrightarrow> cshaped enc (set_right h p w) rt c q = cshaped enc h rt c q"
  by (rule cshaped_cong; auto)+

lemma set_other [simp]:
  "q \<noteq> p \<Longrightarrow> set_value h p v q = h q"
  "q \<noteq> p \<Longrightarrow> set_parent h p w q = h q"
  "q \<noteq> p \<Longrightarrow> set_left h p w q = h q"
  "q \<noteq> p \<Longrightarrow> set_right h p w q = h q"
  by (simp_all add: set_value_def set_parent_def set_left_def set_right_def)

section \<open>The link updates of a rotation\<close>

definition reparent :: "(nat \<Rightarrow> ('v, 'p, 'm) node_scheme) \<Rightarrow> nat option \<Rightarrow> 'p \<Rightarrow> (nat \<Rightarrow> ('v, 'p, 'm) node_scheme)" where
  "reparent h c par = (case c of None \<Rightarrow> h | Some t \<Rightarrow> set_parent h t par)"

definition put_child ::
  "(nat \<Rightarrow> ('v, nat option, 'm) node_scheme) \<Rightarrow> nat option \<Rightarrow> nat option \<Rightarrow> nat \<Rightarrow> nat option
     \<Rightarrow> (nat \<Rightarrow> ('v, nat option, 'm) node_scheme) \<times> nat option" where
  "put_child h rt par old new =
     (case par of None \<Rightarrow> (h, new)
      | Some p \<Rightarrow> if left (h p) = Some old then (set_left h p new, rt) else (set_right h p new, rt))"

lemma reparent_get [simp]:
  "value (reparent h c par q) = value (h q)"
  "parent (reparent h c par q) = (if c = Some q then par else parent (h q))"
  "left (reparent h c par q) = left (h q)"
  "right (reparent h c par q) = right (h q)"
  "node.more (reparent h c par q) = node.more (h q)"
  by (auto simp: reparent_def split: option.splits)

lemma put_child_get [simp]:
  "value (fst (put_child h rt par old new) q) = value (h q)"
  "parent (fst (put_child h rt par old new) q) = parent (h q)"
  "left (fst (put_child h rt par old new) q) =
     (if par = Some q \<and> left (h q) = Some old then new else left (h q))"
  "right (fst (put_child h rt par old new) q) =
     (if par = Some q \<and> left (h q) \<noteq> Some old then new else right (h q))"
  "node.more (fst (put_child h rt par old new) q) = node.more (h q)"
  "snd (put_child h rt par old new) = (if par = None then new else rt)"
  by (auto simp: put_child_def split: option.splits)

lemma put_child_other: "par \<noteq> Some q \<Longrightarrow> fst (put_child h rt par old new) q = h q"
  by (auto simp: put_child_def split: option.splits)

lemma reparent_other: "c \<noteq> Some q \<Longrightarrow> reparent h c par q = h q"
  by (auto simp: reparent_def split: option.splits)

lemma cshaped_put_child:
  assumes "cshaped (\<lambda>p. p) h rt c (Some y)" and "y \<notin> caddrs c"
    and "\<And>a. a \<in> caddrs c \<Longrightarrow> same_links h h0 a"
  shows "cshaped (\<lambda>p. p) (fst (put_child h0 rt (cpar c) y p')) (snd (put_child h0 rt (cpar c) y p')) c p'"
proof (rule cshaped_hole [OF assms(1)])
  show "same_links h (fst (put_child h0 rt (cpar c) y p')) a" if "a \<in> caddrs c" "cpar c \<noteq> Some a" for a
    using assms(3) [OF that(1)] that(2) by (simp add: same_links_def)
  show "hole_ok (\<lambda>p. p) h (fst (put_child h0 rt (cpar c) y p')) rt (snd (put_child h0 rt (cpar c) y p')) c p'"
  proof (cases c)
    case Nil
    then show ?thesis by simp
  next
    case (Cons f c')
    obtain d q u where f: "f = (d, q, u)" by (cases f)
    have "same_links h h0 q" using assms(3) [of q] Cons f by simp
    moreover have "ptr u \<noteq> Some y" using assms(2) Cons f ptr_in_addrs [of u y] by auto
    ultimately show ?thesis using assms(1) unfolding Cons f
      by (cases d) (auto simp: same_links_def)
  qed
qed

definition rot_right_links ::
  "(nat \<Rightarrow> ('v, nat option, 'm) node_scheme) \<Rightarrow> nat \<Rightarrow> nat \<Rightarrow> (nat \<Rightarrow> ('v, nat option, 'm) node_scheme)" where
  "rot_right_links h y x =
     reparent (set_parent (set_parent (set_left (set_right h x (Some y)) y (right (h x))) x (parent (h y))) y (Some x))
       (right (h x)) (Some y)"

definition rot_left_links ::
  "(nat \<Rightarrow> ('v, nat option, 'm) node_scheme) \<Rightarrow> nat \<Rightarrow> nat \<Rightarrow> (nat \<Rightarrow> ('v, nat option, 'm) node_scheme)" where
  "rot_left_links h x y =
     reparent (set_parent (set_parent (set_right (set_left h y (Some x)) x (left (h y))) y (parent (h x))) x (Some y))
       (left (h y)) (Some x)"

lemma rot_right_links_get [simp]:
  "value (rot_right_links h y x q) = value (h q)"
  "node.more (rot_right_links h y x q) = node.more (h q)"
  by (simp_all add: rot_right_links_def)

lemma rot_left_links_get [simp]:
  "value (rot_left_links h x y q) = value (h q)"
  "node.more (rot_left_links h x y q) = node.more (h q)"
  by (simp_all add: rot_left_links_def)

lemma rot_right_links_shape:
  assumes cs: "cshaped (\<lambda>p. p) h rt c (Some y)"
    and sh: "shaped (\<lambda>p. p) h (cpar c) (Br (Br a x b) y cc)"
    and dj: "addrs (Br (Br a x b) y cc) \<inter> caddrs c = {}"
  defines "h1 \<equiv> rot_right_links h y x"
  defines "pc \<equiv> put_child h1 rt (parent (h1 x)) y (Some x)"
  shows "cshaped (\<lambda>p. p) (fst pc) (snd pc) c (Some x)"
    and "shaped (\<lambda>p. p) (fst pc) (cpar c) (Br a x (Br b y cc))"
    and "\<And>p. p \<notin> addrs (Br (Br a x b) y cc) \<Longrightarrow> cpar c \<noteq> Some p \<Longrightarrow> fst pc p = h p"
proof -
  have f: "left (h y) = Some x" "parent (h y) = cpar c" "right (h x) = ptr b"
    "right (h y) = ptr cc" "left (h x) = ptr a" "parent (h x) = Some y"
    using sh by auto
  have ne: "x \<noteq> y" "x \<notin> caddrs c" "y \<notin> caddrs c" "ptr b \<noteq> Some x" "ptr b \<noteq> Some y"
    using sh dj ptr_in_addrs [of b] by auto
  then have ne': "cpar c \<noteq> Some x" "cpar c \<noteq> Some y"
    using cpar_in_caddrs [of c] by auto
  have "parent (h1 x) = cpar c"
    using f ne by (simp add: h1_def rot_right_links_def)
  then have pc_def: "pc = put_child h1 rt (cpar c) y (Some x)"
    by (simp add: pc_def)
  have out: "same_links h h1 p" if "p \<in> caddrs c" for p
  proof -
    have "p \<noteq> x" "p \<noteq> y" "ptr b \<noteq> Some p" using that dj ptr_in_addrs [of b p] by auto
    then show ?thesis using f by (simp add: same_links_def h1_def rot_right_links_def)
  qed
  show "cshaped (\<lambda>p. p) (fst pc) (snd pc) c (Some x)"
    unfolding pc_def by (rule cshaped_put_child [OF cs ne(3) out])
  show "shaped (\<lambda>p. p) (fst pc) (cpar c) (Br a x (Br b y cc))"
  proof (rule shaped_rotated_right [OF sh])
    show "parent (fst pc x) = (cpar c)" "left (fst pc x) = left (h x)" "right (fst pc x) = (Some y)"
      "parent (fst pc y) = (Some x)" "left (fst pc y) = right (h x)" "right (fst pc y) = right (h y)"
      using f ne ne' by (simp_all add: pc_def h1_def rot_right_links_def)
    show "same_links h (fst pc) p" if "p \<in> addrs a \<union> addrs cc" for p
    proof -
      have "p \<noteq> x" "p \<noteq> y" "ptr b \<noteq> Some p" "cpar c \<noteq> Some p"
        using that sh dj ptr_in_addrs [of b p] cpar_in_caddrs [of c p] by auto
      then show ?thesis using f by (simp add: same_links_def pc_def h1_def rot_right_links_def)
    qed
    show "same_links h (fst pc) p" if "p \<in> addrs b" "ptr b \<noteq> Some p" for p
    proof -
      have "p \<noteq> x" "p \<noteq> y" "cpar c \<noteq> Some p"
        using that sh dj cpar_in_caddrs [of c p] by auto
      then show ?thesis using that f by (simp add: same_links_def pc_def h1_def rot_right_links_def)
    qed
    show "parent (fst pc p) = (Some y) \<and> left (fst pc p) = left (h p) \<and> right (fst pc p) = right (h p)"
      if "ptr b = Some p" for p
    proof -
      have "p \<in> addrs b" using that by (rule ptr_in_addrs)
      then have "p \<noteq> x" "p \<noteq> y" "cpar c \<noteq> Some p"
        using sh dj cpar_in_caddrs [of c p] by auto
      then show ?thesis using that f by (simp add: pc_def h1_def rot_right_links_def)
    qed
  qed
  show "fst pc p = h p" if "p \<notin> addrs (Br (Br a x b) y cc)" "cpar c \<noteq> Some p" for p
  proof -
    have "p \<noteq> x" "p \<noteq> y" "ptr b \<noteq> Some p" using that ptr_in_addrs [of b p] by auto
    then show ?thesis using that f
      by (simp add: pc_def h1_def rot_right_links_def put_child_other reparent_other)
  qed
qed

lemma rot_left_links_shape:
  assumes cs: "cshaped (\<lambda>p. p) h rt c (Some x)"
    and sh: "shaped (\<lambda>p. p) h (cpar c) (Br a x (Br b y cc))"
    and dj: "addrs (Br a x (Br b y cc)) \<inter> caddrs c = {}"
  defines "h1 \<equiv> rot_left_links h x y"
  defines "pc \<equiv> put_child h1 rt (parent (h1 y)) x (Some y)"
  shows "cshaped (\<lambda>p. p) (fst pc) (snd pc) c (Some y)"
    and "shaped (\<lambda>p. p) (fst pc) (cpar c) (Br (Br a x b) y cc)"
    and "\<And>p. p \<notin> addrs (Br a x (Br b y cc)) \<Longrightarrow> cpar c \<noteq> Some p \<Longrightarrow> fst pc p = h p"
proof -
  have f: "right (h x) = Some y" "parent (h x) = cpar c" "left (h y) = ptr b"
    "right (h y) = ptr cc" "left (h x) = ptr a" "parent (h y) = Some x"
    using sh by auto
  have ne: "x \<noteq> y" "x \<notin> caddrs c" "y \<notin> caddrs c" "ptr b \<noteq> Some x" "ptr b \<noteq> Some y"
    using sh dj ptr_in_addrs [of b] by auto
  then have ne': "cpar c \<noteq> Some x" "cpar c \<noteq> Some y"
    using cpar_in_caddrs [of c] by auto
  have "parent (h1 y) = cpar c"
    using f ne by (simp add: h1_def rot_left_links_def)
  then have pc_def: "pc = put_child h1 rt (cpar c) x (Some y)"
    by (simp add: pc_def)
  have out: "same_links h h1 p" if "p \<in> caddrs c" for p
  proof -
    have "p \<noteq> x" "p \<noteq> y" "ptr b \<noteq> Some p" using that dj ptr_in_addrs [of b p] by auto
    then show ?thesis using f by (simp add: same_links_def h1_def rot_left_links_def)
  qed
  show "cshaped (\<lambda>p. p) (fst pc) (snd pc) c (Some y)"
    unfolding pc_def by (rule cshaped_put_child [OF cs ne(2) out])
  show "shaped (\<lambda>p. p) (fst pc) (cpar c) (Br (Br a x b) y cc)"
  proof (rule shaped_rotated_left [OF sh])
    show "parent (fst pc y) = (cpar c)" "right (fst pc y) = right (h y)" "left (fst pc y) = (Some x)"
      "parent (fst pc x) = (Some y)" "right (fst pc x) = left (h y)" "left (fst pc x) = left (h x)"
      using f ne ne' by (simp_all add: pc_def h1_def rot_left_links_def)
    show "same_links h (fst pc) p" if "p \<in> addrs a \<union> addrs cc" for p
    proof -
      have "p \<noteq> x" "p \<noteq> y" "ptr b \<noteq> Some p" "cpar c \<noteq> Some p"
        using that sh dj ptr_in_addrs [of b p] cpar_in_caddrs [of c p] by auto
      then show ?thesis using f by (simp add: same_links_def pc_def h1_def rot_left_links_def)
    qed
    show "same_links h (fst pc) p" if "p \<in> addrs b" "ptr b \<noteq> Some p" for p
    proof -
      have "p \<noteq> x" "p \<noteq> y" "cpar c \<noteq> Some p"
        using that sh dj cpar_in_caddrs [of c p] by auto
      then show ?thesis using that f by (simp add: same_links_def pc_def h1_def rot_left_links_def)
    qed
    show "parent (fst pc p) = (Some x) \<and> left (fst pc p) = left (h p) \<and> right (fst pc p) = right (h p)"
      if "ptr b = Some p" for p
    proof -
      have "p \<in> addrs b" using that by (rule ptr_in_addrs)
      then have "p \<noteq> x" "p \<noteq> y" "cpar c \<noteq> Some p"
        using sh dj cpar_in_caddrs [of c p] by auto
      then show ?thesis using that f by (simp add: pc_def h1_def rot_left_links_def)
    qed
  qed
  show "fst pc p = h p" if "p \<notin> addrs (Br a x (Br b y cc))" "cpar c \<noteq> Some p" for p
  proof -
    have "p \<noteq> x" "p \<noteq> y" "ptr b \<noteq> Some p" using that ptr_in_addrs [of b p] by auto
    then show ?thesis using that f
      by (simp add: pc_def h1_def rot_left_links_def put_child_other reparent_other)
  qed
qed

section \<open>Treap rotations as link updates\<close>

lemma treap_rotate_right_links:
  "left (heap s y) = Some x \<Longrightarrow>
   treap_rotate_right s y d =
     (let h1 = rot_right_links (heap s) y x;
          pc = put_child h1 (root s) (parent (h1 x)) y (Some x)
      in (count_rotation d (s\<lparr>heap := fst pc, root := snd pc\<rparr>), x))"
  by (simp add: treap_rotate_right_def rot_right_links_def put_child_def reparent_def Let_def
      split: option.splits)

lemma treap_rotate_left_links:
  "right (heap s x) = Some y \<Longrightarrow>
   treap_rotate_left s x d =
     (let h1 = rot_left_links (heap s) x y;
          pc = put_child h1 (root s) (parent (h1 y)) x (Some y)
      in (count_rotation d (s\<lparr>heap := fst pc, root := snd pc\<rparr>), y))"
  by (simp add: treap_rotate_left_def rot_left_links_def put_child_def reparent_def Let_def
      split: option.splits)

section \<open>Search paths\<close>

fun descend :: "(nat \<Rightarrow> 'v::linorder) \<Rightarrow> 'v \<Rightarrow> ptree \<Rightarrow> frame list \<Rightarrow> frame list \<times> ptree" where
  "descend val v Tip c = (c, Tip)"
| "descend val v (Br l a r) c =
     (if v = val a then (c, Br l a r)
      else if v < val a then descend val v l ((Lft, a, r) # c)
      else descend val v r ((Rgt, a, l) # c))"

fun path_ok :: "(nat \<Rightarrow> 'v::linorder) \<Rightarrow> 'v \<Rightarrow> frame list \<Rightarrow> bool" where
  "path_ok val v [] = True"
| "path_ok val v ((d, q, s) # c) =
     ((case d of Lft \<Rightarrow> v < val q \<and> (\<forall>a \<in> addrs s. v < val a)
               | Rgt \<Rightarrow> val q < v \<and> (\<forall>a \<in> addrs s. val a < v)) \<and> path_ok val v c)"

definition ordered :: "(nat \<Rightarrow> 'v::linorder) \<Rightarrow> ptree \<Rightarrow> bool" where
  "ordered val t = sorted_wrt (<) (map val (inorder_refs t))"

lemma ordered_Br:
  "ordered val (Br l a r) \<longleftrightarrow>
     ordered val l \<and> ordered val r \<and> (\<forall>x \<in> addrs l. val x < val a) \<and> (\<forall>x \<in> addrs r. val a < val x) \<and>
     (\<forall>x \<in> addrs l. \<forall>y \<in> addrs r. val x < val y)"
  by (auto simp: ordered_def sorted_wrt_append)

lemma ordered_Tip [simp]: "ordered val Tip"
  by (simp add: ordered_def)

lemma descend_plug: "descend val v t c = (c', t') \<Longrightarrow> plug c' t' = plug c t"
  by (induction val v t c rule: descend.induct) (auto split: if_splits)

lemma descend_found: "descend val v t c = (c', Br l a r) \<Longrightarrow> val a = v"
  by (induction val v t c rule: descend.induct) (auto split: if_splits)

lemma descend_path_ok:
  "descend val v t c = (c', t') \<Longrightarrow> ordered val t \<Longrightarrow> path_ok val v c \<Longrightarrow> path_ok val v c'"
proof (induction val v t c rule: descend.induct)
  case (1 val v c)
  then show ?case by simp
next
  case (2 val v l a r c)
  show ?case
  proof (cases "v = val a")
    case True
    with 2 show ?thesis by simp
  next
    case False
    show ?thesis
    proof (cases "v < val a")
      case True
      have "path_ok val v ((Lft, a, r) # c)"
        using True 2(4,5) by (auto simp: ordered_Br)
      with 2(1)  [OF False True] 2(3,4) False True show ?thesis by (simp add: ordered_Br)
    next
      case gt: False
      have "path_ok val v ((Rgt, a, l) # c)"
        using False gt 2(4,5) by (auto simp: ordered_Br)
      with 2(2) [OF False gt] 2(3,4) False gt show ?thesis by (simp add: ordered_Br)
    qed
  qed
qed

lemma path_ok_bounds:
  "path_ok val v c \<Longrightarrow> (\<forall>a \<in> set (cbefore c). val a < v) \<and> (\<forall>a \<in> set (cafter c). v < val a)"
proof (induction c)
  case Nil
  show ?case by simp
next
  case (Cons f c)
  obtain d q s where f: "f = (d, q, s)" by (cases f)
  show ?case using Cons unfolding f by (cases d) auto
qed

lemma path_ok_notin: "path_ok val v c \<Longrightarrow> a \<in> caddrs c \<Longrightarrow> val a \<noteq> v"
proof (induction c)
  case Nil
  then show ?case by simp
next
  case (Cons f c)
  obtain d q s where f: "f = (d, q, s)" by (cases f)
  show ?case using Cons unfolding f by (cases d) auto
qed

lemma caddrs_before_after: "caddrs c = set (cbefore c) \<union> set (cafter c)"
proof (induction c)
  case Nil
  show ?case by simp
next
  case (Cons f c)
  obtain d q s where f: "f = (d, q, s)" by (cases f)
  show ?case using Cons unfolding f by (cases d) auto
qed

lemma ordered_plug:
  "ordered val (plug c t) \<longleftrightarrow>
     sorted_wrt (<) (map val (cbefore c @ inorder_refs t @ cafter c))"
  by (simp add: ordered_def inorder_refs_plug)

text \<open>Putting a new key into the hole its search path ends in keeps the order.\<close>

lemma ordered_plug_new:
  assumes "ordered val (plug c Tip)" and "path_ok val' v c" and "val' n = v"
    and "\<And>a. a \<in> caddrs c \<Longrightarrow> val' a = val a"
  shows "ordered val' (plug c (Br Tip n Tip))"
proof -
  have eq: "map val' (cbefore c) = map val (cbefore c)" "map val' (cafter c) = map val (cafter c)"
    using assms(4) by (auto simp: caddrs_before_after)
  have b: "(\<forall>a \<in> set (cbefore c). val' a < v) \<and> (\<forall>a \<in> set (cafter c). v < val' a)"
    using path_ok_bounds [OF assms(2)] .
  have s: "sorted_wrt (<) (map val (cbefore c) @ map val (cafter c))"
    using assms(1) by (simp add: ordered_plug)
  show ?thesis
    unfolding ordered_plug using s b assms(3) assms(4)
    by (auto simp: eq sorted_wrt_append caddrs_before_after)
qed

lemma ordered_plug_sub: "ordered val (plug c t) \<Longrightarrow> ordered val t"
  by (simp add: ordered_def inorder_refs_plug sorted_wrt_append)

section \<open>Treap: the search of insert follows the path\<close>

lemma treap_insert_search_descend:
  "shaped (\<lambda>p. p) h par t \<Longrightarrow> cpar c = par \<Longrightarrow>
   treap_insert_search h (ptr t) par v =
     Some (case descend (\<lambda>a. value (h a)) v t c of
             (c', Tip) \<Rightarrow> Slot (cpar c') | (c', Br _ _ _) \<Rightarrow> Duplicate)"
proof (induction t arbitrary: par c)
  case Tip
  then show ?case by (subst treap_insert_search.simps) simp
next
  case (Br l a r)
  show ?case
  proof (cases "v = value (h a)")
    case True
    then show ?thesis by (subst treap_insert_search.simps) simp
  next
    case False
    show ?thesis
    proof (cases "v < value (h a)")
      case True
      from Br.IH(1) [of "Some a" "(Lft, a, r) # c"] Br.prems False True
      show ?thesis by (subst treap_insert_search.simps) simp
    next
      case ge: False
      from Br.IH(2) [of "Some a" "(Rgt, a, l) # c"] Br.prems False ge
      show ?thesis by (subst treap_insert_search.simps) simp
    qed
  qed
qed

lemma priority_links [simp]:
  "priority (reparent h c par q) = priority (h q)"
  "priority (fst (put_child h rt pp old new) q) = priority (h q)"
  "priority (rot_right_links h y x q) = priority (h q)"
  "priority (rot_left_links h x y q) = priority (h q)"
  by (auto simp: reparent_def put_child_def rot_right_links_def rot_left_links_def split: option.splits)

lemma height_links [simp]:
  "height (reparent h c par q) = height (h q)"
  "height (fst (put_child h rt pp old new) q) = height (h q)"
  "height (rot_right_links h y x q) = height (h q)"
  "height (rot_left_links h x y q) = height (h q)"
  by (auto simp: reparent_def put_child_def rot_right_links_def rot_left_links_def split: option.splits)

section \<open>Treap: rotations in a context\<close>

definition treap_frame :: "'a treap \<Rightarrow> 'a treap \<Rightarrow> bool" where
  "treap_frame s s' \<longleftrightarrow>
     (\<forall>p. value (heap s' p) = value (heap s p) \<and> priority (heap s' p) = priority (heap s p)) \<and>
     next_ref s' = next_ref s \<and> guard_hits s' = guard_hits s \<and> max_priority s' = max_priority s"

lemma treap_frame_refl [simp]: "treap_frame s s"
  by (simp add: treap_frame_def)

lemma treap_frame_trans: "treap_frame s s' \<Longrightarrow> treap_frame s' s'' \<Longrightarrow> treap_frame s s''"
  by (simp add: treap_frame_def)

lemma treap_rotate_right_ctx:
  fixes s :: "'a treap"
  assumes cs: "cshaped (\<lambda>p. p) (heap s) (root s) c (Some y)"
    and sh: "shaped (\<lambda>p. p) (heap s) (cpar c) (Br (Br a x b) y cc)"
    and dj: "addrs (Br (Br a x b) y cc) \<inter> caddrs c = {}"
  shows "\<exists>s'. treap_rotate_right s y d = (s', x) \<and>
           cshaped (\<lambda>p. p) (heap s') (root s') c (Some x) \<and>
           shaped (\<lambda>p. p) (heap s') (cpar c) (Br a x (Br b y cc)) \<and>
           treap_frame s s' \<and>
           rotations_insert s' = (if d then rotations_insert s else rotations_insert s + 1) \<and>
           rotations_delete s' = (if d then rotations_delete s + 1 else rotations_delete s)"
proof -
  have lx: "left (heap s y) = Some x" using sh by simp
  define pc where "pc = put_child (rot_right_links (heap s) y x) (root s)
    (parent (rot_right_links (heap s) y x x)) y (Some x)"
  define s' where "s' = count_rotation d (s\<lparr>heap := fst pc, root := snd pc\<rparr>)"
  have e: "treap_rotate_right s y d = (s', x)"
    by (simp add: treap_rotate_right_links [OF lx] Let_def pc_def s'_def)
  have hs: "heap s' = fst pc" "root s' = snd pc"
    "next_ref s' = next_ref s" "guard_hits s' = guard_hits s" "max_priority s' = max_priority s"
    "rotations_insert s' = (if d then rotations_insert s else rotations_insert s + 1)"
    "rotations_delete s' = (if d then rotations_delete s + 1 else rotations_delete s)"
    by (simp_all add: s'_def count_rotation_def)
  have fr: "treap_frame s s'"
    unfolding treap_frame_def hs by (simp add: pc_def)
  note sp = rot_right_links_shape [OF cs sh dj, folded pc_def]
  show ?thesis
    using e sp(1,2) fr hs(6,7) unfolding hs(1,2) [symmetric] by blast
qed

lemma treap_rotate_left_ctx:
  fixes s :: "'a treap"
  assumes cs: "cshaped (\<lambda>p. p) (heap s) (root s) c (Some x)"
    and sh: "shaped (\<lambda>p. p) (heap s) (cpar c) (Br a x (Br b y cc))"
    and dj: "addrs (Br a x (Br b y cc)) \<inter> caddrs c = {}"
  shows "\<exists>s'. treap_rotate_left s x d = (s', y) \<and>
           cshaped (\<lambda>p. p) (heap s') (root s') c (Some y) \<and>
           shaped (\<lambda>p. p) (heap s') (cpar c) (Br (Br a x b) y cc) \<and>
           treap_frame s s' \<and>
           rotations_insert s' = (if d then rotations_insert s else rotations_insert s + 1) \<and>
           rotations_delete s' = (if d then rotations_delete s + 1 else rotations_delete s)"
proof -
  have lx: "right (heap s x) = Some y" using sh by simp
  define pc where "pc = put_child (rot_left_links (heap s) x y) (root s)
    (parent (rot_left_links (heap s) x y y)) x (Some y)"
  define s' where "s' = count_rotation d (s\<lparr>heap := fst pc, root := snd pc\<rparr>)"
  have e: "treap_rotate_left s x d = (s', y)"
    by (simp add: treap_rotate_left_links [OF lx] Let_def pc_def s'_def)
  have hs: "heap s' = fst pc" "root s' = snd pc"
    "next_ref s' = next_ref s" "guard_hits s' = guard_hits s" "max_priority s' = max_priority s"
    "rotations_insert s' = (if d then rotations_insert s else rotations_insert s + 1)"
    "rotations_delete s' = (if d then rotations_delete s + 1 else rotations_delete s)"
    by (simp_all add: s'_def count_rotation_def)
  have fr: "treap_frame s s'"
    unfolding treap_frame_def hs by (simp add: pc_def)
  note sp = rot_left_links_shape [OF cs sh dj, folded pc_def]
  show ?thesis
    using e sp(1,2) fr hs(6,7) unfolding hs(1,2) [symmetric] by blast
qed

section \<open>Treap: the heap order on priorities\<close>

definition prio_le :: "(nat \<Rightarrow> int) \<Rightarrow> ptree \<Rightarrow> int \<Rightarrow> bool" where
  "prio_le pr t k = (case ptr t of None \<Rightarrow> True | Some c \<Rightarrow> pr c \<le> k)"

fun heap_ordered :: "(nat \<Rightarrow> int) \<Rightarrow> ptree \<Rightarrow> bool" where
  "heap_ordered pr Tip = True"
| "heap_ordered pr (Br l a r) =
     (heap_ordered pr l \<and> heap_ordered pr r \<and> prio_le pr l (pr a) \<and> prio_le pr r (pr a))"

definition below_parent :: "(nat \<Rightarrow> int) \<Rightarrow> frame list \<Rightarrow> ptree \<Rightarrow> bool" where
  "below_parent pr c t = (case cpar c of None \<Rightarrow> True | Some q \<Rightarrow> prio_le pr t (pr q))"

fun ctx_ordered :: "(nat \<Rightarrow> int) \<Rightarrow> frame list \<Rightarrow> bool" where
  "ctx_ordered pr [] = True"
| "ctx_ordered pr ((d, q, s) # c) =
     (heap_ordered pr s \<and> prio_le pr s (pr q) \<and>
      (case cpar c of None \<Rightarrow> True | Some q' \<Rightarrow> pr q \<le> pr q') \<and> ctx_ordered pr c)"

lemma prio_le_simps [simp]:
  "prio_le pr Tip k"
  "prio_le pr (Br l a r) k \<longleftrightarrow> pr a \<le> k"
  by (simp_all add: prio_le_def)

lemma prio_le_trans: "prio_le pr t k \<Longrightarrow> k \<le> k' \<Longrightarrow> prio_le pr t k'"
  by (cases t) auto

lemma below_parent_simps [simp]:
  "below_parent pr [] t"
  "below_parent pr ((d, q, s) # c) t = prio_le pr t (pr q)"
  by (simp_all add: below_parent_def)

lemma heap_ordered_plug:
  "heap_ordered pr (plug c t) \<longleftrightarrow> ctx_ordered pr c \<and> heap_ordered pr t \<and> below_parent pr c t"
proof (induction c arbitrary: t)
  case Nil
  show ?case by simp
next
  case (Cons f c)
  obtain d q s where f: "f = (d, q, s)" by (cases f)
  show ?case unfolding f using Cons [of "fill (d, q, s) t"]
    by (cases d; cases c) (auto simp: below_parent_def)
qed

lemma treap_bubble_up_correct:
  fixes s :: "'a treap"
  assumes "cshaped (\<lambda>p. p) (heap s) (root s) c (Some n)"
    and "shaped (\<lambda>p. p) (heap s) (cpar c) (Br l n r)"
    and "addrs (Br l n r) \<inter> caddrs c = {}"
    and "heap_ordered (\<lambda>a. priority (heap s a)) (Br l n r)"
    and "ctx_ordered (\<lambda>a. priority (heap s a)) c"
    and "below_parent (\<lambda>a. priority (heap s a)) c l"
    and "below_parent (\<lambda>a. priority (heap s a)) c r"
  shows "\<exists>s' t'. treap_bubble_up s n = Some s' \<and> root s' = ptr t' \<and>
           shaped (\<lambda>p. p) (heap s') None t' \<and>
           heap_ordered (\<lambda>a. priority (heap s' a)) t' \<and>
           inorder_refs t' = inorder_refs (plug c (Br l n r)) \<and>
           treap_frame s s' \<and> rotations_delete s' = rotations_delete s \<and>
           rotations_insert s \<le> rotations_insert s'"
  using assms
proof (induction c arbitrary: s l r)
  case Nil
  have "parent (heap s n) = None" using Nil.prems(2) by simp
  then have "treap_bubble_up s n = Some s"
    by (subst treap_bubble_up.simps) simp
  moreover have "root s = ptr (Br l n r)" using Nil.prems(1) by simp
  ultimately show ?case using Nil.prems(2,4)
    by (intro exI [of _ s] exI [of _ "Br l n r"]) simp
next
  case (Cons f c)
  obtain d q u where f: "f = (d, q, u)" by (cases f)
  let ?pr = "\<lambda>a. priority (heap s a)"
  have pn: "parent (heap s n) = Some q" using Cons.prems(2) f by simp
  show ?case
  proof (cases "?pr q < ?pr n")
    case False
    have "treap_bubble_up s n = Some s"
      using pn False by (subst treap_bubble_up.simps) simp
    moreover have "shaped (\<lambda>p. p) (heap s) None (plug (f # c) (Br l n r)) \<and>
        root s = ptr (plug (f # c) (Br l n r))"
      by (rule shaped_plugI) (use Cons.prems(1,2,3) in simp_all)
    moreover have "heap_ordered ?pr (plug (f # c) (Br l n r))"
      unfolding heap_ordered_plug using Cons.prems(4,5) False f by simp
    ultimately show ?thesis
      by (intro exI [of _ s] exI [of _ "plug (f # c) (Br l n r)"]) simp
  next
    case True
    have csq: "cshaped (\<lambda>p. p) (heap s) (root s) c (Some q)"
      using Cons.prems(1) f by simp
    show ?thesis
    proof (cases d)
      case Lft
      have lq: "left (heap s q) = Some n" using Cons.prems(1) f Lft by simp
      have sh: "shaped (\<lambda>p. p) (heap s) (cpar c) (Br (Br l n r) q u)"
        using Cons.prems(1,2,3) f Lft by auto
      have dj: "addrs (Br (Br l n r) q u) \<inter> caddrs c = {}"
        using Cons.prems(1,3) f by auto
      from treap_rotate_right_ctx [OF csq sh dj, of False]
      obtain s1 where s1: "treap_rotate_right s q False = (s1, n)"
        "cshaped (\<lambda>p. p) (heap s1) (root s1) c (Some n)"
        "shaped (\<lambda>p. p) (heap s1) (cpar c) (Br l n (Br r q u))"
        "treap_frame s s1" "rotations_insert s1 = rotations_insert s + 1"
        "rotations_delete s1 = rotations_delete s"
        by auto
      have pr: "(\<lambda>a. priority (heap s1 a)) = ?pr"
        using s1(4) by (simp add: treap_frame_def)
      have dj1: "addrs (Br l n (Br r q u)) \<inter> caddrs c = {}" using dj by auto
      have ho: "heap_ordered ?pr (Br l n (Br r q u))"
        using Cons.prems(4,5,7) True f by simp
      have co: "ctx_ordered ?pr c" using Cons.prems(5) f by simp
      have bl: "below_parent ?pr c l" "below_parent ?pr c (Br r q u)"
        using Cons.prems(5,6) f prio_le_trans [of ?pr l "?pr q"]
        by (auto simp: below_parent_def split: option.splits)
      from Cons.IH [OF s1(2,3) dj1, unfolded pr, OF ho co bl]
      obtain s' t' where r: "treap_bubble_up s1 n = Some s'" "root s' = ptr t'"
        "shaped (\<lambda>p. p) (heap s') None t'" "heap_ordered (\<lambda>a. priority (heap s' a)) t'"
        "inorder_refs t' = inorder_refs (plug c (Br l n (Br r q u)))"
        "treap_frame s1 s'" "rotations_delete s' = rotations_delete s1"
        "rotations_insert s1 \<le> rotations_insert s'"
        by blast
      have "treap_bubble_up s n = Some s'"
        using pn True lq s1(1) r(1) by (subst treap_bubble_up.simps) simp
      moreover have "inorder_refs t' = inorder_refs (plug (f # c) (Br l n r))"
        using r(5) f Lft by (simp add: inorder_refs_plug)
      ultimately show ?thesis
        using r(2,3,4,7,8) s1(5,6) treap_frame_trans [OF s1(4) r(6)]
        by (intro exI [of _ s'] exI [of _ t']) simp
    next
      case Rgt
      have "n \<notin> addrs u" using Cons.prems(3) f by auto
      then have "ptr u \<noteq> Some n" using ptr_in_addrs by blast
      then have lq: "left (heap s q) \<noteq> Some n" using Cons.prems(1) f Rgt by simp
      have sh: "shaped (\<lambda>p. p) (heap s) (cpar c) (Br u q (Br l n r))"
        using Cons.prems(1,2,3) f Rgt by auto
      have dj: "addrs (Br u q (Br l n r)) \<inter> caddrs c = {}"
        using Cons.prems(1,3) f by auto
      from treap_rotate_left_ctx [OF csq sh dj, of False]
      obtain s1 where s1: "treap_rotate_left s q False = (s1, n)"
        "cshaped (\<lambda>p. p) (heap s1) (root s1) c (Some n)"
        "shaped (\<lambda>p. p) (heap s1) (cpar c) (Br (Br u q l) n r)"
        "treap_frame s s1" "rotations_insert s1 = rotations_insert s + 1"
        "rotations_delete s1 = rotations_delete s"
        by auto
      have pr: "(\<lambda>a. priority (heap s1 a)) = ?pr"
        using s1(4) by (simp add: treap_frame_def)
      have dj1: "addrs (Br (Br u q l) n r) \<inter> caddrs c = {}" using dj by auto
      have ho: "heap_ordered ?pr (Br (Br u q l) n r)"
        using Cons.prems(4,5,6) True f by simp
      have co: "ctx_ordered ?pr c" using Cons.prems(5) f by simp
      have bl: "below_parent ?pr c (Br u q l)" "below_parent ?pr c r"
        using Cons.prems(5,7) f prio_le_trans [of ?pr r "?pr q"]
        by (auto simp: below_parent_def split: option.splits)
      from Cons.IH [OF s1(2,3) dj1, unfolded pr, OF ho co bl]
      obtain s' t' where r: "treap_bubble_up s1 n = Some s'" "root s' = ptr t'"
        "shaped (\<lambda>p. p) (heap s') None t'" "heap_ordered (\<lambda>a. priority (heap s' a)) t'"
        "inorder_refs t' = inorder_refs (plug c (Br (Br u q l) n r))"
        "treap_frame s1 s'" "rotations_delete s' = rotations_delete s1"
        "rotations_insert s1 \<le> rotations_insert s'"
        by blast
      have "treap_bubble_up s n = Some s'"
        using pn True lq s1(1) r(1) by (subst treap_bubble_up.simps) simp
      moreover have "inorder_refs t' = inorder_refs (plug (f # c) (Br l n r))"
        using r(5) f Rgt by (simp add: inorder_refs_plug)
      ultimately show ?thesis
        using r(2,3,4,7,8) s1(5,6) treap_frame_trans [OF s1(4) r(6)]
        by (intro exI [of _ s'] exI [of _ t']) simp
    qed
  qed
qed

lemma heap_ordered_cong:
  "(\<And>a. a \<in> addrs t \<Longrightarrow> pr' a = pr a) \<Longrightarrow> heap_ordered pr' t = heap_ordered pr t"
proof (induction t)
  case Tip
  show ?case by simp
next
  case (Br l a r)
  have "prio_le pr' l k = prio_le pr l k" "prio_le pr' r k = prio_le pr r k" for k
    using Br.prems by (cases l; simp; cases r; simp)+
  then show ?case using Br by simp
qed

lemma ctx_ordered_cong:
  "(\<And>a. a \<in> caddrs c \<Longrightarrow> pr' a = pr a) \<Longrightarrow> ctx_ordered pr' c = ctx_ordered pr c"
proof (induction c)
  case Nil
  show ?case by simp
next
  case (Cons f c)
  obtain d q s where f: "f = (d, q, s)" by (cases f)
  have 1: "heap_ordered pr' s = heap_ordered pr s"
    by (rule heap_ordered_cong) (use Cons.prems f in auto)
  have 2: "prio_le pr' s k = prio_le pr s k" for k
    using Cons.prems f by (cases s) auto
  have 3: "ctx_ordered pr' c = ctx_ordered pr c"
    by (rule Cons.IH) (use Cons.prems f in auto)
  have 4: "pr' q = pr q" using Cons.prems f by auto
  have 5: "cpar c = Some q' \<Longrightarrow> pr' q' = pr q'" for q'
    using Cons.prems [of q'] f cpar_in_caddrs [of c q'] by auto
  show ?case unfolding f using 1 2 3 4 5 by (auto split: option.splits)
qed

lemma ordered_cong:
  "(\<And>a. a \<in> addrs t \<Longrightarrow> val' a = val a) \<Longrightarrow> ordered val' t = ordered val t"
proof -
  assume "\<And>a. a \<in> addrs t \<Longrightarrow> val' a = val a"
  then have "map val' (inorder_refs t) = map val (inorder_refs t)" by simp
  then show ?thesis unfolding ordered_def by (rule arg_cong)
qed

lemma ordered_inorder: "inorder_refs t' = inorder_refs t \<Longrightarrow> ordered val t' = ordered val t"
  by (simp add: ordered_def)

lemma addrs_inorder: "inorder_refs t' = inorder_refs t \<Longrightarrow> addrs t' = addrs t"
  by (metis set_inorder_refs)

lemma shaped_fun_upd [simp]:
  "n \<notin> addrs t \<Longrightarrow> shaped enc (h(n := x)) par t = shaped enc h par t"
  by (rule shaped_cong) auto

lemma cshaped_fun_upd [simp]:
  "n \<notin> caddrs c \<Longrightarrow> cshaped enc (h(n := x)) rt c p = cshaped enc h rt c p"
  by (rule cshaped_cong) auto

section \<open>Treap: the state invariant\<close>

definition treap_abs :: "('a::linorder) treap \<Rightarrow> ptree \<Rightarrow> bool" where
  "treap_abs s t \<longleftrightarrow>
     root s = ptr t \<and> shaped (\<lambda>p. p) (heap s) None t \<and> addrs t \<subseteq> {..<next_ref s} \<and>
     ordered (\<lambda>a. value (heap s a)) t \<and> heap_ordered (\<lambda>a. priority (heap s a)) t"

definition keys_of :: "(nat \<Rightarrow> ('v, 'p, 'm) node_scheme) \<Rightarrow> ptree \<Rightarrow> 'v set" where
  "keys_of h t = (\<lambda>a. value (h a)) ` addrs t"

text \<open>Linking a fresh leaf into the hole of a context.\<close>

lemma link_new_leaf:
  fixes h :: "nat \<Rightarrow> ('v::linorder, nat option, 'm) node_scheme"
  assumes cs: "cshaped (\<lambda>p. p) h rt ((d, q, u) # c) None"
    and n: "n \<notin> caddrs ((d, q, u) # c)"
    and hn: "parent (h n) = Some q" "left (h n) = None" "right (h n) = None"
    and side: "d = Lft \<longleftrightarrow> v < value (h q)"
  defines "h' \<equiv> (if v < value (h q) then set_left h q (Some n) else set_right h q (Some n))"
  shows "cshaped (\<lambda>p. p) h' rt ((d, q, u) # c) (Some n)"
    and "shaped (\<lambda>p. p) h' (Some q) (Br Tip n Tip)"
proof -
  have nq: "n \<noteq> q" using n by auto
  show "cshaped (\<lambda>p. p) h' rt ((d, q, u) # c) (Some n)"
  proof (rule cshaped_hole [OF cs])
    show "same_links h h' a" if "a \<in> caddrs ((d, q, u) # c)" "cpar ((d, q, u) # c) \<noteq> Some a" for a
      using that by (simp add: same_links_def h'_def)
    show "hole_ok (\<lambda>p. p) h h' rt rt ((d, q, u) # c) (Some n)"
      using side by (cases d) (auto simp: h'_def)
  qed
  show "shaped (\<lambda>p. p) h' (Some q) (Br Tip n Tip)"
    using hn nq by (simp add: h'_def)
qed

lemma descend_nonempty:
  "descend val v t c = (c', Tip) \<Longrightarrow> t \<noteq> Tip \<Longrightarrow> c' \<noteq> []"
  by (induction val v t c rule: descend.induct) (auto split: if_splits elim: descend.elims)

lemma path_ok_head: "path_ok val v ((d, q, u) # c) \<Longrightarrow> (d = Lft \<longleftrightarrow> v < val q)"
  by (cases d) auto

lemma keys_of_plug_found:
  assumes "descend val v t [] = (c, t')" "ordered val t"
  shows "v \<in> val ` addrs t \<longleftrightarrow> t' \<noteq> Tip"
proof -
  have pl: "plug c t' = t" using descend_plug [OF assms(1)] by simp
  have po: "path_ok val v c" using descend_path_ok [OF assms(1,2)] by simp
  show ?thesis
  proof (cases t')
    case Tip
    have "addrs t = caddrs c" using pl [symmetric] Tip by simp
    then show ?thesis using path_ok_notin [OF po] Tip by auto
  next
    case (Br l a r)
    have "val a = v" using descend_found assms(1) Br by metis
    moreover have "a \<in> addrs t" using pl [symmetric] Br by simp
    ultimately show ?thesis using Br by auto
  qed
qed

lemma path_ok_cong:
  "(\<And>a. a \<in> caddrs c \<Longrightarrow> val' a = val a) \<Longrightarrow> path_ok val' v c = path_ok val v c"
proof (induction c)
  case Nil
  show ?case by simp
next
  case (Cons f c)
  obtain d q s where f: "f = (d, q, s)" by (cases f)
  have "path_ok val' v c = path_ok val v c" by (rule Cons.IH) (use Cons.prems f in auto)
  then show ?case unfolding f using Cons.prems f by (cases d) auto
qed

lemma treap_insert_correct:
  fixes s :: "('a::linorder) treap"
  assumes inv: "treap_abs s t"
  shows "\<exists>s' t' b. treap_insert s v prio = Some (s', b) \<and> treap_abs s' t' \<and>
           keys_of (heap s') t' = insert v (keys_of (heap s) t) \<and>
           (b \<longleftrightarrow> v \<notin> keys_of (heap s) t) \<and> (\<not> b \<longrightarrow> s' = s) \<and>
           rotations_delete s' = rotations_delete s \<and> rotations_insert s \<le> rotations_insert s' \<and>
           guard_hits s' = guard_hits s \<and> max_priority s' = max_priority s"
proof (cases t)
  case Tip
  define n where "n = next_ref s"
  define s' where "s' = (fst (treap_new_node s v None prio))\<lparr>root := Some n\<rparr>"
  have r: "root s = None" using inv Tip by (simp add: treap_abs_def)
  have e: "treap_insert s v prio = Some (s', True)"
    using r by (simp add: treap_insert_def treap_new_node_def s'_def n_def)
  have "treap_abs s' (Br Tip n Tip)"
    by (simp add: treap_abs_def s'_def treap_new_node_def n_def ordered_def)
  moreover have "keys_of (heap s') (Br Tip n Tip) = insert v (keys_of (heap s) t)"
    by (simp add: keys_of_def s'_def treap_new_node_def n_def Tip)
  ultimately show ?thesis using e Tip
    by (intro exI [of _ s'] exI [of _ "Br Tip n Tip"] exI [of _ True])
      (simp add: s'_def treap_new_node_def keys_of_def)
next
  case (Br l0 a0 r0)
  let ?val = "\<lambda>a. value (heap s a)"
  let ?pr = "\<lambda>a. priority (heap s a)"
  have rt: "root s = ptr t" and sh: "shaped (\<lambda>p. p) (heap s) None t"
    and fresh: "addrs t \<subseteq> {..<next_ref s}" and ord: "ordered ?val t"
    and ho: "heap_ordered ?pr t"
    using inv by (simp_all add: treap_abs_def)
  obtain c t1 where d: "descend ?val v t [] = (c, t1)" by (cases "descend ?val v t []")
  have pl: "plug c t1 = t" using descend_plug [OF d] by simp
  have po: "path_ok ?val v c" using descend_path_ok [OF d ord] by simp
  have search: "treap_insert_search (heap s) (root s) None v =
      Some (case t1 of Tip \<Rightarrow> Slot (cpar c) | Br _ _ _ \<Rightarrow> Duplicate)"
    using treap_insert_search_descend [OF sh, of "[]" v] d rt by simp
  have mem: "v \<in> keys_of (heap s) t \<longleftrightarrow> t1 \<noteq> Tip"
    unfolding keys_of_def by (rule keys_of_plug_found [OF d ord])
  have rs: "root s = Some a0" using rt Br by simp
  show ?thesis
  proof (cases t1)
    case (Br l1 a1 r1)
    have "treap_insert s v prio = Some (s, False)"
      using search Br rs by (simp add: treap_insert_def)
    then show ?thesis using inv mem Br
      by (intro exI [of _ s] exI [of _ t] exI [of _ False]) auto
  next
    case Tip
    have "c \<noteq> []" using descend_nonempty [of ?val v t "[]" c] d Tip \<open>t = Br l0 a0 r0\<close> by simp
    then obtain e q u c' where c: "c = (e, q, u) # c'" by (cases c) auto
    define n where "n = next_ref s"
    define h1 where "h1 = (heap s)(n := \<lparr>value = v, parent = Some q, left = None, right = None, priority = prio\<rparr>)"
    define h2 where "h2 = (if v < value (h1 q) then set_left h1 q (Some n) else set_right h1 q (Some n))"
    define s2 where "s2 = s\<lparr>next_ref := Suc n, heap := h2\<rparr>"
    have nt: "n \<notin> addrs t" using fresh by (auto simp: n_def)
    then have nc: "n \<notin> caddrs c" using pl [symmetric] by simp
    then have nq: "n \<noteq> q" using c by auto
    have cs0: "cshaped (\<lambda>p. p) (heap s) (root s) c None \<and> shaped (\<lambda>p. p) (heap s) (cpar c) Tip \<and> addrs Tip \<inter> caddrs c = {}"
      using shaped_plugD [of "heap s" c Tip "root s"] sh rt pl Tip by simp
    have "cshaped (\<lambda>p. p) h1 (root s) c None"
      using cs0 nc by (simp add: h1_def)
    then have cs1: "cshaped (\<lambda>p. p) h1 (root s) ((e, q, u) # c') None"
      unfolding c .
    have side: "e = Lft \<longleftrightarrow> v < value (h1 q)"
      using path_ok_head [of ?val v e q u c'] po c nq by (simp add: h1_def)
    note ll = link_new_leaf [OF cs1 _ _ _ _ side, of n, folded h2_def]
    have cs2: "cshaped (\<lambda>p. p) (heap s2) (root s2) c (Some n)"
      and sh2: "shaped (\<lambda>p. p) (heap s2) (cpar c) (Br Tip n Tip)"
      using ll nc c by (simp_all add: s2_def h1_def)
    have val2: "value (heap s2 p) = (if p = n then v else ?val p)"
      and pr2: "priority (heap s2 p) = (if p = n then prio else ?pr p)" for p
      by (simp_all add: s2_def h2_def h1_def)
    have ins: "treap_insert s v prio = do { s' \<leftarrow> treap_bubble_up s2 n; Some (s', True) }"
      using search Tip rs c nq
      by (simp add: treap_insert_def treap_new_node_def s2_def h2_def h1_def n_def)
    have dj2: "addrs (Br Tip n Tip) \<inter> caddrs c = {}" using nc by simp
    have co: "ctx_ordered (\<lambda>a. priority (heap s2 a)) c"
    proof -
      have "ctx_ordered ?pr c" using ho pl [symmetric] by (simp add: heap_ordered_plug)
      moreover have "ctx_ordered (\<lambda>a. priority (heap s2 a)) c = ctx_ordered ?pr c"
        by (rule ctx_ordered_cong) (use nc pr2 in auto)
      ultimately show ?thesis by simp
    qed
    have ho2: "heap_ordered (\<lambda>a. priority (heap s2 a)) (Br Tip n Tip)" by simp
    have bp: "below_parent (\<lambda>a. priority (heap s2 a)) c Tip"
      by (simp add: below_parent_def split: option.splits)
    from treap_bubble_up_correct [OF cs2 sh2 dj2 ho2 co bp bp]
    obtain s' t' where r: "treap_bubble_up s2 n = Some s'" "root s' = ptr t'"
      "shaped (\<lambda>p. p) (heap s') None t'" "heap_ordered (\<lambda>a. priority (heap s' a)) t'"
      "inorder_refs t' = inorder_refs (plug c (Br Tip n Tip))"
      "treap_frame s2 s'" "rotations_delete s' = rotations_delete s2"
      "rotations_insert s2 \<le> rotations_insert s'"
      by blast
    have val': "(\<lambda>a. value (heap s' a)) = (\<lambda>a. value (heap s2 a))"
      using r(6) by (simp add: treap_frame_def)
    have ad: "addrs t' = insert n (addrs t)"
      using addrs_inorder [OF r(5)] pl [symmetric] Tip by simp
    have o2: "ordered (\<lambda>a. value (heap s2 a)) (plug c (Br Tip n Tip))"
    proof (rule ordered_plug_new [of ?val _ _ v])
      show "ordered ?val (plug c Tip)" using ord pl Tip by simp
      show "path_ok (\<lambda>a. value (heap s2 a)) v c"
      proof -
        have "path_ok (\<lambda>a. value (heap s2 a)) v c = path_ok ?val v c"
          by (rule path_ok_cong) (use nc val2 in auto)
        then show ?thesis using po by simp
      qed
      show "value (heap s2 n) = v" by (simp add: val2)
      show "value (heap s2 a) = ?val a" if "a \<in> caddrs c" for a
        using that nc by (auto simp: val2)
    qed
    have "treap_abs s' t'"
      unfolding treap_abs_def
      using r(2,3,4) r(6) ad fresh o2 ordered_inorder [OF r(5)]
      by (auto simp: val' treap_frame_def s2_def n_def)
    moreover have "keys_of (heap s') t' = insert v (keys_of (heap s) t)"
      unfolding keys_of_def val' ad using nt by (auto simp: val2)
    moreover have "treap_insert s v prio = Some (s', True)"
      using ins r(1) by simp
    ultimately show ?thesis using mem Tip r(6,7,8)
      by (intro exI [of _ s'] exI [of _ t'] exI [of _ True])
        (auto simp: treap_frame_def s2_def)
  qed
qed

lemma ordered_distinct_vals: "ordered val t \<Longrightarrow> distinct (map val (inorder_refs t))"
  unfolding ordered_def by (simp add: strict_sorted_iff)

lemma ordered_inj: "ordered val t \<Longrightarrow> inj_on val (addrs t)"
  using ordered_distinct_vals [of val t] by (simp add: distinct_map)

lemma ordered_plug_remove: "ordered val (plug c t) \<Longrightarrow> ordered val (plug c Tip)"
  by (simp add: ordered_def inorder_refs_plug sorted_wrt_append)

lemma treap_delete_search_descend:
  "shaped (\<lambda>p. p) h par t \<Longrightarrow>
   treap_delete_search h (ptr t) v =
     Some (case descend (\<lambda>a. value (h a)) v t c of
             (c', Tip) \<Rightarrow> None | (c', Br _ a _) \<Rightarrow> Some a)"
proof (induction t arbitrary: par c)
  case Tip
  then show ?case by (subst treap_delete_search.simps) simp
next
  case (Br l a r)
  show ?case
  proof (cases "v = value (h a)")
    case True
    then show ?thesis by (subst treap_delete_search.simps) simp
  next
    case False
    show ?thesis
    proof (cases "v < value (h a)")
      case True
      from Br.IH(1) [of "Some a" "(Lft, a, r) # c"] Br.prems False True
      show ?thesis by (subst treap_delete_search.simps) auto
    next
      case ge: False
      from Br.IH(2) [of "Some a" "(Rgt, a, l) # c"] Br.prems False ge
      show ?thesis by (subst treap_delete_search.simps) auto
    qed
  qed
qed

definition rd_post :: "'a treap \<Rightarrow> nat \<Rightarrow> nat list \<Rightarrow> 'a treap \<Rightarrow> frame list \<Rightarrow> bool" where
  "rd_post s cur xs s' c' \<longleftrightarrow>
     cshaped (\<lambda>p. p) (heap s') (root s') c' (Some cur) \<and>
     shaped (\<lambda>p. p) (heap s') (cpar c') (Br Tip cur Tip) \<and> cur \<notin> caddrs c' \<and>
     ctx_ordered (\<lambda>a. priority (heap s a)) c' \<and>
     inorder_refs (plug c' (Br Tip cur Tip)) = xs \<and>
     treap_frame s s' \<and> rotations_insert s' = rotations_insert s \<and>
     rotations_delete s \<le> rotations_delete s'"

lemma treap_rotate_down_correct:
  fixes s :: "'a treap"
  assumes "cshaped (\<lambda>p. p) (heap s) (root s) c (Some cur)"
    and "shaped (\<lambda>p. p) (heap s) (cpar c) (Br l cur r)"
    and "addrs (Br l cur r) \<inter> caddrs c = {}"
    and "heap_ordered (\<lambda>a. priority (heap s a)) l"
    and "heap_ordered (\<lambda>a. priority (heap s a)) r"
    and "ctx_ordered (\<lambda>a. priority (heap s a)) c"
    and "below_parent (\<lambda>a. priority (heap s a)) c l"
    and "below_parent (\<lambda>a. priority (heap s a)) c r"
  shows "\<exists>s' c'. treap_rotate_down s cur = Some s' \<and>
           rd_post s cur (inorder_refs (plug c (Br l cur r))) s' c'"
  using assms
proof (induction "size l + size r" arbitrary: s c l r rule: less_induct)
  case less
  let ?pr = "\<lambda>a. priority (heap s a)"
  note cs = less.prems(1) and sh = less.prems(2) and dj = less.prems(3)
  have lk: "left (heap s cur) = ptr l" "right (heap s cur) = ptr r" using sh by auto
  text \<open>after a left rotation that lifts the right child y\<close>
  have go_left: ?case
    if r: "r = Br rl y rr" and step: "treap_rotate_down_step s cur = Some (fst (treap_rotate_left s cur True))"
      and le: "prio_le ?pr l (?pr y)" for rl y rr
  proof -
    from treap_rotate_left_ctx [OF cs sh [unfolded r] dj [unfolded r], of True]
    obtain s1 where s1: "treap_rotate_left s cur True = (s1, y)"
      "cshaped (\<lambda>p. p) (heap s1) (root s1) c (Some y)"
      "shaped (\<lambda>p. p) (heap s1) (cpar c) (Br (Br l cur rl) y rr)"
      "treap_frame s s1" "rotations_insert s1 = rotations_insert s"
      "rotations_delete s1 = rotations_delete s + 1"
      by auto
    have pr: "(\<lambda>a. priority (heap s1 a)) = ?pr"
      using s1(4) by (simp add: treap_frame_def)
    let ?c = "(Lft, y, rr) # c"
    have cs1: "cshaped (\<lambda>p. p) (heap s1) (root s1) ?c (Some cur)"
      using s1(2,3) dj r by auto
    have sh1: "shaped (\<lambda>p. p) (heap s1) (cpar ?c) (Br l cur rl)"
      using s1(3) by simp
    have dj1: "addrs (Br l cur rl) \<inter> caddrs ?c = {}"
      using dj r s1(3) by auto
    have ho: "heap_ordered ?pr l" "heap_ordered ?pr rl"
      using less.prems(4,5) r by simp_all
    have co: "ctx_ordered ?pr ?c"
      using less.prems(5,6,8) r by (auto simp: below_parent_def split: option.splits)
    have bp: "below_parent ?pr ?c l" "below_parent ?pr ?c rl"
      using le less.prems(5) r by simp_all
    have sz: "size l + size rl < size l + size r" using r by simp
    from less.hyps [OF sz cs1 sh1 dj1, unfolded pr, OF ho co bp]
    obtain s' c' where r': "treap_rotate_down s1 cur = Some s'"
      "rd_post s1 cur (inorder_refs (plug ?c (Br l cur rl))) s' c'"
      by blast
    have "treap_rotate_down s cur = Some s'"
      using lk r step s1(1) r'(1) by (subst treap_rotate_down.simps) simp
    moreover have "rd_post s cur (inorder_refs (plug c (Br l cur r))) s' c'"
      using r'(2) s1(4,5,6) treap_frame_trans [OF s1(4)] r
      unfolding rd_post_def pr by (simp add: inorder_refs_plug)
    ultimately show ?thesis by blast
  qed
  have go_right: ?case
    if l: "l = Br ll x lr" and step: "treap_rotate_down_step s cur = Some (fst (treap_rotate_right s cur True))"
      and le: "prio_le ?pr r (?pr x)" for ll x lr
  proof -
    from treap_rotate_right_ctx [OF cs sh [unfolded l] dj [unfolded l], of True]
    obtain s1 where s1: "treap_rotate_right s cur True = (s1, x)"
      "cshaped (\<lambda>p. p) (heap s1) (root s1) c (Some x)"
      "shaped (\<lambda>p. p) (heap s1) (cpar c) (Br ll x (Br lr cur r))"
      "treap_frame s s1" "rotations_insert s1 = rotations_insert s"
      "rotations_delete s1 = rotations_delete s + 1"
      by auto
    have pr: "(\<lambda>a. priority (heap s1 a)) = ?pr"
      using s1(4) by (simp add: treap_frame_def)
    let ?c = "(Rgt, x, ll) # c"
    have cs1: "cshaped (\<lambda>p. p) (heap s1) (root s1) ?c (Some cur)"
      using s1(2,3) dj l by auto
    have sh1: "shaped (\<lambda>p. p) (heap s1) (cpar ?c) (Br lr cur r)"
      using s1(3) by simp
    have dj1: "addrs (Br lr cur r) \<inter> caddrs ?c = {}"
      using dj l s1(3) by auto
    have ho: "heap_ordered ?pr lr" "heap_ordered ?pr r"
      using less.prems(4,5) l by simp_all
    have co: "ctx_ordered ?pr ?c"
      using less.prems(4,6,7) l by (auto simp: below_parent_def split: option.splits)
    have bp: "below_parent ?pr ?c lr" "below_parent ?pr ?c r"
      using le less.prems(4) l by simp_all
    have sz: "size lr + size r < size l + size r" using l by simp
    from less.hyps [OF sz cs1 sh1 dj1, unfolded pr, OF ho co bp]
    obtain s' c' where r': "treap_rotate_down s1 cur = Some s'"
      "rd_post s1 cur (inorder_refs (plug ?c (Br lr cur r))) s' c'"
      by blast
    have "treap_rotate_down s cur = Some s'"
      using lk l step s1(1) r'(1) by (subst treap_rotate_down.simps) simp
    moreover have "rd_post s cur (inorder_refs (plug c (Br l cur r))) s' c'"
      using r'(2) s1(4,5,6) treap_frame_trans [OF s1(4)] l
      unfolding rd_post_def pr by (simp add: inorder_refs_plug)
    ultimately show ?thesis by blast
  qed
  show ?case
  proof (cases l)
    case Tip
    note lT = Tip
    show ?thesis
    proof (cases r)
      case Tip
      have "treap_rotate_down s cur = Some s"
        using lk lT Tip by (subst treap_rotate_down.simps) simp
      moreover have "rd_post s cur (inorder_refs (plug c (Br l cur r))) s c"
        using cs sh dj less.prems(6) lT Tip by (simp add: rd_post_def)
      ultimately show ?thesis by blast
    next
      case (Br rl y rr)
      show ?thesis
        by (rule go_left [OF Br]) (use lk lT Br in \<open>simp_all add: treap_rotate_down_step_def\<close>)
    qed
  next
    case (Br ll x lr)
    note lB = Br
    show ?thesis
    proof (cases r)
      case Tip
      show ?thesis
        by (rule go_right [OF lB]) (use lk lB Tip in \<open>simp_all add: treap_rotate_down_step_def\<close>)
    next
      case (Br rl y rr)
      show ?thesis
      proof (cases "?pr x > ?pr y")
        case True
        show ?thesis
          by (rule go_right [OF lB]) (use lk lB Br True in \<open>simp_all add: treap_rotate_down_step_def\<close>)
      next
        case False
        show ?thesis
          by (rule go_left [OF Br]) (use lk lB Br False in \<open>simp_all add: treap_rotate_down_step_def\<close>)
      qed
    qed
  qed
qed

lemma treap_detach_correct:
  fixes s :: "'a treap"
  assumes cs: "cshaped (\<lambda>p. p) (heap s) (root s) c (Some cur)"
    and sh: "shaped (\<lambda>p. p) (heap s) (cpar c) (Br Tip cur Tip)"
    and nc: "cur \<notin> caddrs c"
  shows "cshaped (\<lambda>p. p) (heap (treap_detach s cur)) (root (treap_detach s cur)) c None"
    and "treap_frame s (treap_detach s cur)"
    and "rotations_insert (treap_detach s cur) = rotations_insert s"
    and "rotations_delete (treap_detach s cur) = rotations_delete s"
proof -
  have pc: "parent (heap s cur) = cpar c" using sh by simp
  show "treap_frame s (treap_detach s cur)"
    "rotations_insert (treap_detach s cur) = rotations_insert s"
    "rotations_delete (treap_detach s cur) = rotations_delete s"
    by (simp_all add: treap_detach_def treap_frame_def split: option.splits)
  show "cshaped (\<lambda>p. p) (heap (treap_detach s cur)) (root (treap_detach s cur)) c None"
  proof (cases c)
    case Nil
    then show ?thesis using pc by (simp add: treap_detach_def)
  next
    case (Cons f c')
    obtain d q u where f: "f = (d, q, u)" by (cases f)
    have "ptr u \<noteq> Some cur" using nc Cons f ptr_in_addrs [of u cur] by auto
    then have side: "left (heap s q) = Some cur \<longleftrightarrow> d = Lft"
      using cs Cons f by (cases d) auto
    show ?thesis
    proof (rule cshaped_hole [OF cs])
      show "same_links (heap s) (heap (treap_detach s cur)) a" if "a \<in> caddrs c" "cpar c \<noteq> Some a" for a
        using that pc by (auto simp: same_links_def treap_detach_def split: option.splits)
      show "hole_ok (\<lambda>p. p) (heap s) (heap (treap_detach s cur)) (root s) (root (treap_detach s cur)) c None"
        using pc side unfolding Cons f by (cases d) (auto simp: treap_detach_def)
    qed
  qed
qed

lemma hole_linked:
  assumes "cshaped (\<lambda>p. p) h rt c (Some n)" "parent (h n) = cpar c"
  shows "case parent (h n) of None \<Rightarrow> rt = Some n
         | Some p \<Rightarrow> left (h p) = Some n \<or> right (h p) = Some n"
proof (cases c)
  case Nil
  then show ?thesis using assms by simp
next
  case (Cons f c')
  obtain d q u where f: "f = (d, q, u)" by (cases f)
  show ?thesis using assms unfolding Cons f by (cases d) auto
qed

lemma keys_of_remove:
  assumes "ordered val t" "addrs t = insert a A" "a \<notin> A"
  shows "val ` A = val ` addrs t - {val a}"
proof -
  have "inj_on val (insert a A)" using ordered_inj [OF assms(1)] assms(2) by simp
  then show ?thesis using assms(2,3) by (auto simp: inj_on_def)
qed

lemma treap_delete_correct:
  fixes s :: "('a::linorder) treap"
  assumes inv: "treap_abs s t"
  shows "\<exists>s' t' b. treap_delete s v = Some (s', b) \<and> treap_abs s' t' \<and>
           keys_of (heap s') t' = keys_of (heap s) t - {v} \<and>
           (b \<longleftrightarrow> v \<in> keys_of (heap s) t) \<and> (\<not> b \<longrightarrow> s' = s) \<and>
           rotations_insert s' = rotations_insert s \<and> rotations_delete s \<le> rotations_delete s' \<and>
           guard_hits s' = guard_hits s \<and> max_priority s' = max_priority s \<and>
           (b \<longrightarrow> (\<exists>cur s1. treap_delete_search (heap s) (root s) v = Some (Some cur) \<and>
              value (heap s cur) = v \<and> cur \<in> addrs t \<and> treap_rotate_down s cur = Some s1 \<and>
              left (heap s1 cur) = None \<and> right (heap s1 cur) = None \<and>
              (case parent (heap s1 cur) of None \<Rightarrow> root s1 = Some cur
               | Some p \<Rightarrow> left (heap s1 p) = Some cur \<or> right (heap s1 p) = Some cur) \<and>
              s' = treap_detach s1 cur \<and> cur \<notin> addrs t'))"
proof -
  let ?val = "\<lambda>a. value (heap s a)"
  let ?pr = "\<lambda>a. priority (heap s a)"
  have rt: "root s = ptr t" and sh: "shaped (\<lambda>p. p) (heap s) None t"
    and fresh: "addrs t \<subseteq> {..<next_ref s}" and ord: "ordered ?val t"
    and ho: "heap_ordered ?pr t"
    using inv by (simp_all add: treap_abs_def)
  obtain c t1 where d: "descend ?val v t [] = (c, t1)" by (cases "descend ?val v t []")
  have pl: "plug c t1 = t" using descend_plug [OF d] by simp
  have search: "treap_delete_search (heap s) (root s) v =
      Some (case t1 of Tip \<Rightarrow> None | Br _ a _ \<Rightarrow> Some a)"
    using treap_delete_search_descend [OF sh, of v "[]"] d rt by simp
  have mem: "v \<in> keys_of (heap s) t \<longleftrightarrow> t1 \<noteq> Tip"
    unfolding keys_of_def by (rule keys_of_plug_found [OF d ord])
  show ?thesis
  proof (cases t1)
    case Tip
    have "treap_delete s v = Some (s, False)"
      using search Tip by (simp add: treap_delete_def)
    then show ?thesis using inv mem Tip
      by (intro exI [of _ s] exI [of _ t] exI [of _ False]) auto
  next
    case (Br l cur r)
    have vc: "?val cur = v" using descend_found d Br by metis
    have z: "cshaped (\<lambda>p. p) (heap s) (root s) c (Some cur)"
      "shaped (\<lambda>p. p) (heap s) (cpar c) (Br l cur r)"
      "addrs (Br l cur r) \<inter> caddrs c = {}"
      using shaped_plugD [of "heap s" c t1 "root s"] sh rt pl Br by simp_all
    have hp: "ctx_ordered ?pr c" "heap_ordered ?pr l" "heap_ordered ?pr r"
      "below_parent ?pr c l" "below_parent ?pr c r"
      using ho pl [symmetric] Br
      by (auto simp: heap_ordered_plug below_parent_def intro: prio_le_trans split: option.splits)
    from treap_rotate_down_correct [OF z hp(2,3,1,4,5)]
    obtain s1 c' where s1: "treap_rotate_down s cur = Some s1"
      "rd_post s cur (inorder_refs (plug c (Br l cur r))) s1 c'"
      by blast
    note p = s1(2) [unfolded rd_post_def]
    define s' where "s' = treap_detach s1 cur"
    note dt = treap_detach_correct [of s1 c' cur, folded s'_def]
    have cs': "cshaped (\<lambda>p. p) (heap s') (root s') c' None"
      and fr': "treap_frame s1 s'"
      and ri: "rotations_insert s' = rotations_insert s1"
      and rd: "rotations_delete s' = rotations_delete s1"
      using dt p by simp_all
    have fr: "treap_frame s s'" using treap_frame_trans [of s s1 s'] p fr' by simp
    have val': "(\<lambda>a. value (heap s' a)) = ?val" and pr': "(\<lambda>a. priority (heap s' a)) = ?pr"
      using fr by (simp_all add: treap_frame_def)
    have io: "inorder_refs (plug c' (Br Tip cur Tip)) = inorder_refs t"
      using p pl Br by simp
    have ad: "addrs t = insert cur (caddrs c')"
      using addrs_inorder [OF io] by simp
    have shp: "shaped (\<lambda>p. p) (heap s') None (plug c' Tip) \<and> root s' = ptr (plug c' Tip)"
      by (rule shaped_plugI) (use cs' in simp_all)
    have "ordered ?val (plug c' (Br Tip cur Tip))"
      using ordered_inorder [OF io, of ?val] ord by simp
    then have o': "ordered ?val (plug c' Tip)" by (rule ordered_plug_remove)
    have h': "heap_ordered ?pr (plug c' Tip)"
      using p by (simp add: heap_ordered_plug below_parent_def split: option.splits)
    have "treap_abs s' (plug c' Tip)"
      unfolding treap_abs_def val' pr' using shp o' h' fresh ad fr
      by (auto simp: treap_frame_def)
    moreover have "keys_of (heap s') (plug c' Tip) = keys_of (heap s) t - {v}"
      unfolding keys_of_def val' using keys_of_remove [OF ord ad] p vc by simp
    moreover have "treap_delete s v = Some (s', True)"
      using search Br s1(1) by (simp add: treap_delete_def s'_def)
    moreover have "case parent (heap s1 cur) of None \<Rightarrow> root s1 = Some cur
        | Some p \<Rightarrow> left (heap s1 p) = Some cur \<or> right (heap s1 p) = Some cur"
      by (rule hole_linked [of _ _ c']) (use p in simp_all)
    then have "\<exists>cur s1. treap_delete_search (heap s) (root s) v = Some (Some cur) \<and>
        value (heap s cur) = v \<and> cur \<in> addrs t \<and> treap_rotate_down s cur = Some s1 \<and>
        left (heap s1 cur) = None \<and> right (heap s1 cur) = None \<and>
        (case parent (heap s1 cur) of None \<Rightarrow> root s1 = Some cur
         | Some p \<Rightarrow> left (heap s1 p) = Some cur \<or> right (heap s1 p) = Some cur) \<and>
        s' = treap_detach s1 cur \<and> cur \<notin> addrs (plug c' Tip)"
      using search Br vc ad s1(1) p by (intro exI [of _ cur] exI [of _ s1]) (simp add: s'_def)
    moreover have "rotations_insert s' = rotations_insert s" "rotations_delete s \<le> rotations_delete s'"
      "guard_hits s' = guard_hits s" "max_priority s' = max_priority s"
      using fr ri rd p by (simp_all add: treap_frame_def)
    ultimately show ?thesis using mem Br
      by (intro exI [of _ s'] exI [of _ "plug c' Tip"] exI [of _ True]) simp
  qed
qed

section \<open>AVL: heights and balance of a shape\<close>

fun ht :: "ptree \<Rightarrow> int" where
  "ht Tip = 0"
| "ht (Br l a r) = 1 + max (ht l) (ht r)"

fun hts_ok :: "(nat \<Rightarrow> int) \<Rightarrow> ptree \<Rightarrow> bool" where
  "hts_ok hf Tip = True"
| "hts_ok hf (Br l a r) = (hts_ok hf l \<and> hts_ok hf r \<and> hf a = 1 + max (ht l) (ht r))"

fun balanced :: "ptree \<Rightarrow> bool" where
  "balanced Tip = True"
| "balanced (Br l a r) = (balanced l \<and> balanced r \<and> \<bar>ht l - ht r\<bar> \<le> 1)"

lemma ht_nonneg [simp]: "0 \<le> ht t"
  by (induction t) auto

lemma ht_pos_iff: "0 < ht t \<longleftrightarrow> t \<noteq> Tip"
proof (cases t)
  case Tip
  then show ?thesis by simp
next
  case (Br l a r)
  have "0 \<le> max (ht l) (ht r)" by (simp add: le_max_iff_disj)
  then show ?thesis using Br by simp
qed

lemma get_height_simps [simp]:
  "get_height h None = 0"
  "get_height h (Some n) = height (h n)"
  by (simp_all add: get_height_def)

lemma hts_ok_cong:
  "(\<And>a. a \<in> addrs t \<Longrightarrow> hf' a = hf a) \<Longrightarrow> hts_ok hf' t = hts_ok hf t"
  by (induction t) auto

lemma get_height_ptr:
  "hts_ok (\<lambda>a. height (h a)) t \<Longrightarrow> get_height h (ptr t) = ht t"
  by (cases t) (simp_all add: get_height_def)


lemma update_height_get [simp]:
  "value (update_height h p q) = value (h q)"
  "parent (update_height h p q) = parent (h q)"
  "left (update_height h p q) = left (h q)"
  "right (update_height h p q) = right (h q)"
  by (simp_all add: update_height_def split: option.splits)

lemma update_height_height:
  "height (update_height h (Some n) q) =
     (if q = n then 1 + max (get_height h (left (h n))) (get_height h (right (h n))) else height (h q))"
  by (simp add: update_height_def)

lemma get_height_update_other:
  "p \<noteq> Some n \<Longrightarrow> get_height (update_height h (Some n)) p = get_height h p"
  by (cases p) (simp_all add: get_height_def update_height_height)

lemma shaped_update_height [simp]:
  "shaped enc (update_height h p) par t = shaped enc h par t"
  by (rule shaped_cong) simp

lemma cshaped_update_height [simp]:
  "cshaped enc (update_height h p) rt c q = cshaped enc h rt c q"
  by (rule cshaped_cong) simp

section \<open>AVL rotations as link updates followed by height updates\<close>

lemma avl_rotate_right_links:
  "left (heap s y) = Some x \<Longrightarrow>
   avl_rotate_right s y d =
     (let h1 = rot_right_links (heap s) y x;
          pc = put_child h1 (root s) (parent (h1 x)) y (Some x);
          h2 = update_height (update_height (fst pc) (Some y)) (Some x)
      in (count_rotation d (s\<lparr>root := snd pc, heap := h2\<rparr>), x))"
  by (simp add: avl_rotate_right_def rot_right_links_def put_child_def reparent_def Let_def
      split: option.splits)

lemma avl_rotate_left_links:
  "right (heap s x) = Some y \<Longrightarrow>
   avl_rotate_left s x d =
     (let h1 = rot_left_links (heap s) x y;
          pc = put_child h1 (root s) (parent (h1 y)) x (Some y);
          h2 = update_height (update_height (fst pc) (Some x)) (Some y)
      in (count_rotation d (s\<lparr>root := snd pc, heap := h2\<rparr>), y))"
  by (simp add: avl_rotate_left_def rot_left_links_def put_child_def reparent_def Let_def
      split: option.splits)

definition avl_frame :: "'a avl_tree \<Rightarrow> 'a avl_tree \<Rightarrow> nat set \<Rightarrow> bool" where
  "avl_frame s s' A \<longleftrightarrow>
     (\<forall>p. value (heap s' p) = value (heap s p)) \<and>
     (\<forall>p. p \<notin> A \<longrightarrow> height (heap s' p) = height (heap s p)) \<and>
     next_ref s' = next_ref s \<and> guard_hits s' = guard_hits s"

lemma avl_frame_refl [simp]: "avl_frame s s A"
  by (simp add: avl_frame_def)

lemma avl_frame_trans:
  assumes "avl_frame s s' A" "avl_frame s' s'' B" "A \<subseteq> C" "B \<subseteq> C"
  shows "avl_frame s s'' C"
proof -
  have "height (heap s'' p) = height (heap s p)" if "p \<notin> C" for p
  proof -
    have "p \<notin> A" "p \<notin> B" using that assms(3,4) by auto
    then show ?thesis using assms(1,2) by (simp add: avl_frame_def)
  qed
  then show ?thesis using assms(1,2) by (simp add: avl_frame_def)
qed

definition counted :: "bool \<Rightarrow> 'z base_scheme \<Rightarrow> 'y base_scheme \<Rightarrow> bool" where
  "counted d s s' \<longleftrightarrow>
     (if d then rotations_insert s' = rotations_insert s \<and> rotations_delete s \<le> rotations_delete s'
      else rotations_delete s' = rotations_delete s \<and> rotations_insert s \<le> rotations_insert s')"

lemma counted_refl [simp]: "counted d s s"
  by (simp add: counted_def)

lemma counted_trans: "counted d s s' \<Longrightarrow> counted d s' s'' \<Longrightarrow> counted d s s''"
  by (auto simp: counted_def split: if_splits)

lemma avl_rotate_right_ctx:
  fixes s :: "'a avl_tree"
  assumes cs: "cshaped (\<lambda>p. p) (heap s) (root s) c (Some y)"
    and sh: "shaped (\<lambda>p. p) (heap s) (cpar c) (Br (Br a x b) y cc)"
    and dj: "addrs (Br (Br a x b) y cc) \<inter> caddrs c = {}"
    and hts: "hts_ok (\<lambda>p. height (heap s p)) a" "hts_ok (\<lambda>p. height (heap s p)) b"
      "hts_ok (\<lambda>p. height (heap s p)) cc"
  shows "\<exists>s'. avl_rotate_right s y d = (s', x) \<and>
           cshaped (\<lambda>p. p) (heap s') (root s') c (Some x) \<and>
           shaped (\<lambda>p. p) (heap s') (cpar c) (Br a x (Br b y cc)) \<and>
           hts_ok (\<lambda>p. height (heap s' p)) (Br a x (Br b y cc)) \<and>
           avl_frame s s' {x, y} \<and> counted d s s'"
proof -
  have lx: "left (heap s y) = Some x" using sh by simp
  define pc where "pc = put_child (rot_right_links (heap s) y x) (root s)
    (parent (rot_right_links (heap s) y x x)) y (Some x)"
  define h2 where "h2 = update_height (update_height (fst pc) (Some y)) (Some x)"
  define s' where "s' = count_rotation d (s\<lparr>root := snd pc, heap := h2\<rparr>)"
  have e: "avl_rotate_right s y d = (s', x)"
    by (simp add: avl_rotate_right_links [OF lx] Let_def pc_def s'_def h2_def)
  have hs: "heap s' = h2" "root s' = snd pc"
    "next_ref s' = next_ref s" "guard_hits s' = guard_hits s"
    by (simp_all add: s'_def count_rotation_def)
  have cnt: "counted d s s'"
    by (simp add: s'_def count_rotation_def counted_def)
  note sp = rot_right_links_shape [OF cs sh dj, folded pc_def]
  have ne: "x \<noteq> y" "x \<notin> addrs a" "x \<notin> addrs b" "x \<notin> addrs cc" "y \<notin> addrs a" "y \<notin> addrs b" "y \<notin> addrs cc"
    using sh by auto
  have hp: "height (fst pc p) = height (heap s p)" for p
    by (simp add: pc_def)
  have lk: "left (fst pc y) = ptr b" "right (fst pc y) = ptr cc" "left (fst pc x) = ptr a"
    "right (fst pc x) = Some y"
    using sp(2) by simp_all
  have g: "get_height (fst pc) (ptr a) = ht a" "get_height (fst pc) (ptr b) = ht b"
    "get_height (fst pc) (ptr cc) = ht cc"
    using get_height_ptr [of "fst pc"] hts by (simp_all add: hp)
  have np: "ptr a \<noteq> Some y" using ne ptr_in_addrs [of a y] by auto
  have hy: "height (h2 y) = 1 + max (ht b) (ht cc)"
    using ne lk g by (simp add: h2_def update_height_height)
  have hx: "height (h2 x) = 1 + max (ht a) (1 + max (ht b) (ht cc))"
    using ne lk g np by (simp add: h2_def update_height_height get_height_update_other)
  have ho: "height (h2 p) = height (heap s p)" if "p \<noteq> x" "p \<noteq> y" for p
    using that by (simp add: h2_def update_height_height hp)
  have "hts_ok (\<lambda>p. height (h2 p)) a = hts_ok (\<lambda>p. height (heap s p)) a"
    "hts_ok (\<lambda>p. height (h2 p)) b = hts_ok (\<lambda>p. height (heap s p)) b"
    "hts_ok (\<lambda>p. height (h2 p)) cc = hts_ok (\<lambda>p. height (heap s p)) cc"
    by (rule hts_ok_cong, use ne ho in force)+
  then have ok: "hts_ok (\<lambda>p. height (h2 p)) (Br a x (Br b y cc))"
    using hts hx hy by simp
  have fr: "avl_frame s s' {x, y}"
    unfolding avl_frame_def hs using ho by (simp add: h2_def pc_def)
  have "cshaped (\<lambda>p. p) h2 (snd pc) c (Some x)" "shaped (\<lambda>p. p) h2 (cpar c) (Br a x (Br b y cc))"
    using sp(1,2) unfolding h2_def shaped_update_height cshaped_update_height by blast+
  then show ?thesis
    using e ok fr cnt unfolding hs(1,2) [symmetric] by blast
qed

lemma avl_rotate_left_ctx:
  fixes s :: "'a avl_tree"
  assumes cs: "cshaped (\<lambda>p. p) (heap s) (root s) c (Some x)"
    and sh: "shaped (\<lambda>p. p) (heap s) (cpar c) (Br a x (Br b y cc))"
    and dj: "addrs (Br a x (Br b y cc)) \<inter> caddrs c = {}"
    and hts: "hts_ok (\<lambda>p. height (heap s p)) a" "hts_ok (\<lambda>p. height (heap s p)) b"
      "hts_ok (\<lambda>p. height (heap s p)) cc"
  shows "\<exists>s'. avl_rotate_left s x d = (s', y) \<and>
           cshaped (\<lambda>p. p) (heap s') (root s') c (Some y) \<and>
           shaped (\<lambda>p. p) (heap s') (cpar c) (Br (Br a x b) y cc) \<and>
           hts_ok (\<lambda>p. height (heap s' p)) (Br (Br a x b) y cc) \<and>
           avl_frame s s' {x, y} \<and> counted d s s'"
proof -
  have lx: "right (heap s x) = Some y" using sh by simp
  define pc where "pc = put_child (rot_left_links (heap s) x y) (root s)
    (parent (rot_left_links (heap s) x y y)) x (Some y)"
  define h2 where "h2 = update_height (update_height (fst pc) (Some x)) (Some y)"
  define s' where "s' = count_rotation d (s\<lparr>root := snd pc, heap := h2\<rparr>)"
  have e: "avl_rotate_left s x d = (s', y)"
    by (simp add: avl_rotate_left_links [OF lx] Let_def pc_def s'_def h2_def)
  have hs: "heap s' = h2" "root s' = snd pc"
    "next_ref s' = next_ref s" "guard_hits s' = guard_hits s"
    by (simp_all add: s'_def count_rotation_def)
  have cnt: "counted d s s'"
    by (simp add: s'_def count_rotation_def counted_def)
  note sp = rot_left_links_shape [OF cs sh dj, folded pc_def]
  have ne: "x \<noteq> y" "x \<notin> addrs a" "x \<notin> addrs b" "x \<notin> addrs cc" "y \<notin> addrs a" "y \<notin> addrs b" "y \<notin> addrs cc"
    using sh by auto
  have hp: "height (fst pc p) = height (heap s p)" for p
    by (simp add: pc_def)
  have lk: "left (fst pc x) = ptr a" "right (fst pc x) = ptr b" "right (fst pc y) = ptr cc"
    "left (fst pc y) = Some x"
    using sp(2) by simp_all
  have g: "get_height (fst pc) (ptr a) = ht a" "get_height (fst pc) (ptr b) = ht b"
    "get_height (fst pc) (ptr cc) = ht cc"
    using get_height_ptr [of "fst pc"] hts by (simp_all add: hp)
  have np: "ptr cc \<noteq> Some x" using ne ptr_in_addrs [of cc x] by auto
  have hx: "height (h2 x) = 1 + max (ht a) (ht b)"
    using ne lk g by (simp add: h2_def update_height_height)
  have hy: "height (h2 y) = 1 + max (1 + max (ht a) (ht b)) (ht cc)"
    using ne lk g np by (simp add: h2_def update_height_height get_height_update_other)
  have ho: "height (h2 p) = height (heap s p)" if "p \<noteq> x" "p \<noteq> y" for p
    using that by (simp add: h2_def update_height_height hp)
  have "hts_ok (\<lambda>p. height (h2 p)) a = hts_ok (\<lambda>p. height (heap s p)) a"
    "hts_ok (\<lambda>p. height (h2 p)) b = hts_ok (\<lambda>p. height (heap s p)) b"
    "hts_ok (\<lambda>p. height (h2 p)) cc = hts_ok (\<lambda>p. height (heap s p)) cc"
    by (rule hts_ok_cong, use ne ho in force)+
  then have ok: "hts_ok (\<lambda>p. height (h2 p)) (Br (Br a x b) y cc)"
    using hts hx hy by simp
  have fr: "avl_frame s s' {x, y}"
    unfolding avl_frame_def hs using ho by (simp add: h2_def pc_def)
  have "cshaped (\<lambda>p. p) h2 (snd pc) c (Some y)" "shaped (\<lambda>p. p) h2 (cpar c) (Br (Br a x b) y cc)"
    using sp(1,2) unfolding h2_def shaped_update_height cshaped_update_height by blast+
  then show ?thesis
    using e ok fr cnt unfolding hs(1,2) [symmetric] by blast
qed

definition reb_post ::
  "'a avl_tree \<Rightarrow> frame list \<Rightarrow> ptree \<Rightarrow> bool \<Rightarrow> 'a avl_tree \<Rightarrow> nat \<Rightarrow> ptree \<Rightarrow> bool" where
  "reb_post s c t d s' n' t' \<longleftrightarrow>
     ptr t' = Some n' \<and>
     cshaped (\<lambda>p. p) (heap s') (root s') c (Some n') \<and>
     shaped (\<lambda>p. p) (heap s') (cpar c) t' \<and>
     inorder_refs t' = inorder_refs t \<and>
     hts_ok (\<lambda>p. height (heap s' p)) t' \<and> balanced t' \<and>
     avl_frame s s' (addrs t) \<and> counted d s s'"

lemma hts_ok_frame:
  "avl_frame s s' A \<Longrightarrow> A \<inter> addrs t = {} \<Longrightarrow>
   hts_ok (\<lambda>p. height (heap s' p)) t = hts_ok (\<lambda>p. height (heap s p)) t"
  by (rule hts_ok_cong) (auto simp: avl_frame_def)

lemma avl_frame_mono: "avl_frame s s' A \<Longrightarrow> A \<subseteq> B \<Longrightarrow> avl_frame s s' B"
  by (auto simp: avl_frame_def)

text \<open>The left-heavy case: the node's height is up to date and its left subtree is two
  levels higher than its right subtree.\<close>

lemma avl_rebalance_left_heavy:
  fixes s :: "'a avl_tree"
  assumes cs: "cshaped (\<lambda>p. p) (heap s) (root s) c (Some n)"
    and sh: "shaped (\<lambda>p. p) (heap s) (cpar c) (Br (Br ll x lr) n r)"
    and dj: "addrs (Br (Br ll x lr) n r) \<inter> caddrs c = {}"
    and hts: "hts_ok (\<lambda>p. height (heap s p)) (Br ll x lr)" "hts_ok (\<lambda>p. height (heap s p)) r"
    and bal: "balanced (Br ll x lr)" "balanced r"
    and hv: "ht (Br ll x lr) = ht r + 2"
  shows "\<exists>s' n' t'.
      do { s1 \<leftarrow> (if get_balance (heap s) (left (heap s n)) < 0
                    then avl_rotate_left_opt s (left (heap s n)) d else Some s);
           Some (avl_rotate_right s1 n d) } = Some (s', n') \<and>
      reb_post s c (Br (Br ll x lr) n r) d s' n' t' \<and>
      (ht t' = ht r + 2 \<or> ht t' = ht r + 3)"
proof -
  let ?hf = "\<lambda>p. height (heap s p)"
  have ln: "left (heap s n) = Some x" using sh by simp
  have hl: "hts_ok ?hf ll" "hts_ok ?hf lr" using hts by simp_all
  have gb: "get_balance (heap s) (Some x) = ht ll - ht lr"
    using sh get_height_ptr [OF hl(1)] get_height_ptr [OF hl(2)] by (simp add: get_balance_def)
  show ?thesis
  proof (cases "ht ll - ht lr < 0")
    case False
    from avl_rotate_right_ctx [OF cs sh dj hl hts(2), of d]
    obtain s' where s': "avl_rotate_right s n d = (s', x)"
      "cshaped (\<lambda>p. p) (heap s') (root s') c (Some x)"
      "shaped (\<lambda>p. p) (heap s') (cpar c) (Br ll x (Br lr n r))"
      "hts_ok (\<lambda>p. height (heap s' p)) (Br ll x (Br lr n r))"
      "avl_frame s s' {x, n}" "counted d s s'"
      by blast
    define t' where "t' = Br ll x (Br lr n r)"
    have b: "balanced t'"
      unfolding t'_def using bal hv False by (simp; linarith)
    have h: "ht t' = ht r + 2 \<or> ht t' = ht r + 3"
      unfolding t'_def using bal hv False by (simp; linarith)
    have "reb_post s c (Br (Br ll x lr) n r) d s' x t'"
      unfolding reb_post_def using s'(2-4,6) b avl_frame_mono [OF s'(5)]
      by (simp add: t'_def)
    then show ?thesis using ln gb False s'(1) h
      by (intro exI [of _ s'] exI [of _ x] exI [of _ t']) simp
  next
    case True
    have "0 < ht lr" using True ht_nonneg [of ll] by linarith
    then obtain lrl z lrr where lr: "lr = Br lrl z lrr" using ht_pos_iff [of lr] by (cases lr) auto
    let ?c = "(Lft, n, r) # c"
    have cs1: "cshaped (\<lambda>p. p) (heap s) (root s) ?c (Some x)"
      using cs sh dj by auto
    have sh1: "shaped (\<lambda>p. p) (heap s) (cpar ?c) (Br ll x (Br lrl z lrr))"
      using sh lr by simp
    have dj1: "addrs (Br ll x (Br lrl z lrr)) \<inter> caddrs ?c = {}"
      using sh dj lr by auto
    have hz: "hts_ok ?hf lrl" "hts_ok ?hf lrr" using hl lr by simp_all
    from avl_rotate_left_ctx [OF cs1 sh1 dj1 hl(1) hz, of d]
    obtain s1 where s1: "avl_rotate_left s x d = (s1, z)"
      "cshaped (\<lambda>p. p) (heap s1) (root s1) ?c (Some z)"
      "shaped (\<lambda>p. p) (heap s1) (cpar ?c) (Br (Br ll x lrl) z lrr)"
      "hts_ok (\<lambda>p. height (heap s1 p)) (Br (Br ll x lrl) z lrr)"
      "avl_frame s s1 {x, z}" "counted d s s1"
      by blast
    have cs2: "cshaped (\<lambda>p. p) (heap s1) (root s1) c (Some n)"
      using s1(2) by simp
    have sh2: "shaped (\<lambda>p. p) (heap s1) (cpar c) (Br (Br (Br ll x lrl) z lrr) n r)"
      using s1(2,3) sh lr by auto
    have dj2: "addrs (Br (Br (Br ll x lrl) z lrr) n r) \<inter> caddrs c = {}"
      using dj lr by auto
    have hr1: "hts_ok (\<lambda>p. height (heap s1 p)) r"
      using hts_ok_frame [OF s1(5), of r] hts(2) sh lr by auto
    have ha: "hts_ok (\<lambda>p. height (heap s1 p)) (Br ll x lrl)" "hts_ok (\<lambda>p. height (heap s1 p)) lrr"
      using s1(4) by simp_all
    from avl_rotate_right_ctx [OF cs2 sh2 dj2 ha hr1, of d]
    obtain s' where s': "avl_rotate_right s1 n d = (s', z)"
      "cshaped (\<lambda>p. p) (heap s') (root s') c (Some z)"
      "shaped (\<lambda>p. p) (heap s') (cpar c) (Br (Br ll x lrl) z (Br lrr n r))"
      "hts_ok (\<lambda>p. height (heap s' p)) (Br (Br ll x lrl) z (Br lrr n r))"
      "avl_frame s1 s' {z, n}" "counted d s1 s'"
      by blast
    define t' where "t' = Br (Br ll x lrl) z (Br lrr n r)"
    have b: "balanced t'"
      unfolding t'_def using bal hv True lr by (simp; linarith)
    have h: "ht t' = ht r + 2"
      unfolding t'_def using bal hv True lr by (simp; linarith)
    have fr: "avl_frame s s' (addrs (Br (Br ll x lr) n r))"
      by (rule avl_frame_trans [OF s1(5) s'(5)]) (auto simp: lr)
    have "reb_post s c (Br (Br ll x lr) n r) d s' z t'"
      unfolding reb_post_def using s'(2,3,4) b fr counted_trans [OF s1(6) s'(6)] lr
      by (simp add: t'_def)
    moreover have "avl_rotate_left_opt s (left (heap s n)) d = Some s1"
      using ln s1(1) by (simp add: avl_rotate_left_opt_def)
    ultimately show ?thesis using ln gb True s'(1) h
      by (intro exI [of _ s'] exI [of _ z] exI [of _ t']) simp
  qed
qed

lemma avl_rebalance_right_heavy:
  fixes s :: "'a avl_tree"
  assumes cs: "cshaped (\<lambda>p. p) (heap s) (root s) c (Some n)"
    and sh: "shaped (\<lambda>p. p) (heap s) (cpar c) (Br l n (Br rl x rr))"
    and dj: "addrs (Br l n (Br rl x rr)) \<inter> caddrs c = {}"
    and hts: "hts_ok (\<lambda>p. height (heap s p)) l" "hts_ok (\<lambda>p. height (heap s p)) (Br rl x rr)"
    and bal: "balanced l" "balanced (Br rl x rr)"
    and hv: "ht (Br rl x rr) = ht l + 2"
  shows "\<exists>s' n' t'.
      do { s1 \<leftarrow> (if get_balance (heap s) (right (heap s n)) > 0
                    then avl_rotate_right_opt s (right (heap s n)) d else Some s);
           Some (avl_rotate_left s1 n d) } = Some (s', n') \<and>
      reb_post s c (Br l n (Br rl x rr)) d s' n' t' \<and>
      (ht t' = ht l + 2 \<or> ht t' = ht l + 3)"
proof -
  let ?hf = "\<lambda>p. height (heap s p)"
  have rn: "right (heap s n) = Some x" using sh by simp
  have hr: "hts_ok ?hf rl" "hts_ok ?hf rr" using hts by simp_all
  have gb: "get_balance (heap s) (Some x) = ht rl - ht rr"
    using sh get_height_ptr [OF hr(1)] get_height_ptr [OF hr(2)] by (simp add: get_balance_def)
  show ?thesis
  proof (cases "ht rl - ht rr > 0")
    case False
    from avl_rotate_left_ctx [OF cs sh dj hts(1) hr, of d]
    obtain s' where s': "avl_rotate_left s n d = (s', x)"
      "cshaped (\<lambda>p. p) (heap s') (root s') c (Some x)"
      "shaped (\<lambda>p. p) (heap s') (cpar c) (Br (Br l n rl) x rr)"
      "hts_ok (\<lambda>p. height (heap s' p)) (Br (Br l n rl) x rr)"
      "avl_frame s s' {n, x}" "counted d s s'"
      by blast
    define t' where "t' = Br (Br l n rl) x rr"
    have b: "balanced t'"
      unfolding t'_def using bal hv False by (simp; linarith)
    have h: "ht t' = ht l + 2 \<or> ht t' = ht l + 3"
      unfolding t'_def using bal hv False by (simp; linarith)
    have "reb_post s c (Br l n (Br rl x rr)) d s' x t'"
      unfolding reb_post_def using s'(2-4,6) b avl_frame_mono [OF s'(5)]
      by (simp add: t'_def)
    then show ?thesis using rn gb False s'(1) h
      by (intro exI [of _ s'] exI [of _ x] exI [of _ t']) simp
  next
    case True
    have "0 < ht rl" using True ht_nonneg [of rr] by linarith
    then obtain rll z rlr where rl: "rl = Br rll z rlr" using ht_pos_iff [of rl] by (cases rl) auto
    let ?c = "(Rgt, n, l) # c"
    have cs1: "cshaped (\<lambda>p. p) (heap s) (root s) ?c (Some x)"
      using cs sh dj by auto
    have sh1: "shaped (\<lambda>p. p) (heap s) (cpar ?c) (Br (Br rll z rlr) x rr)"
      using sh rl by simp
    have dj1: "addrs (Br (Br rll z rlr) x rr) \<inter> caddrs ?c = {}"
      using sh dj rl by auto
    have hz: "hts_ok ?hf rll" "hts_ok ?hf rlr" using hr rl by simp_all
    from avl_rotate_right_ctx [OF cs1 sh1 dj1 hz hr(2), of d]
    obtain s1 where s1: "avl_rotate_right s x d = (s1, z)"
      "cshaped (\<lambda>p. p) (heap s1) (root s1) ?c (Some z)"
      "shaped (\<lambda>p. p) (heap s1) (cpar ?c) (Br rll z (Br rlr x rr))"
      "hts_ok (\<lambda>p. height (heap s1 p)) (Br rll z (Br rlr x rr))"
      "avl_frame s s1 {z, x}" "counted d s s1"
      by blast
    have cs2: "cshaped (\<lambda>p. p) (heap s1) (root s1) c (Some n)"
      using s1(2) by simp
    have sh2: "shaped (\<lambda>p. p) (heap s1) (cpar c) (Br l n (Br rll z (Br rlr x rr)))"
      using s1(2,3) sh rl by auto
    have dj2: "addrs (Br l n (Br rll z (Br rlr x rr))) \<inter> caddrs c = {}"
      using dj rl by auto
    have hl1: "hts_ok (\<lambda>p. height (heap s1 p)) l"
      using hts_ok_frame [OF s1(5), of l] hts(1) sh rl by auto
    have ha: "hts_ok (\<lambda>p. height (heap s1 p)) rll" "hts_ok (\<lambda>p. height (heap s1 p)) (Br rlr x rr)"
      using s1(4) by simp_all
    from avl_rotate_left_ctx [OF cs2 sh2 dj2 hl1 ha, of d]
    obtain s' where s': "avl_rotate_left s1 n d = (s', z)"
      "cshaped (\<lambda>p. p) (heap s') (root s') c (Some z)"
      "shaped (\<lambda>p. p) (heap s') (cpar c) (Br (Br l n rll) z (Br rlr x rr))"
      "hts_ok (\<lambda>p. height (heap s' p)) (Br (Br l n rll) z (Br rlr x rr))"
      "avl_frame s1 s' {n, z}" "counted d s1 s'"
      by blast
    define t' where "t' = Br (Br l n rll) z (Br rlr x rr)"
    have b: "balanced t'"
      unfolding t'_def using bal hv True rl by (simp; linarith)
    have h: "ht t' = ht l + 2"
      unfolding t'_def using bal hv True rl by (simp; linarith)
    have fr: "avl_frame s s' (addrs (Br l n (Br rl x rr)))"
      by (rule avl_frame_trans [OF s1(5) s'(5)]) (auto simp: rl)
    have "reb_post s c (Br l n (Br rl x rr)) d s' z t'"
      unfolding reb_post_def using s'(2,3,4) b fr counted_trans [OF s1(6) s'(6)] rl
      by (simp add: t'_def)
    moreover have "avl_rotate_right_opt s (right (heap s n)) d = Some s1"
      using rn s1(1) by (simp add: avl_rotate_right_opt_def)
    ultimately show ?thesis using rn gb True s'(1) h
      by (intro exI [of _ s'] exI [of _ z] exI [of _ t']) simp
  qed
qed

text \<open>The rebalancing step on a node whose subtrees are AVL trees that differ in height
  by at most two.\<close>

lemma avl_rebalance_correct:
  fixes s :: "'a avl_tree"
  assumes cs: "cshaped (\<lambda>p. p) (heap s) (root s) c (Some n)"
    and sh: "shaped (\<lambda>p. p) (heap s) (cpar c) (Br l n r)"
    and dj: "addrs (Br l n r) \<inter> caddrs c = {}"
    and hts: "hts_ok (\<lambda>p. height (heap s p)) l" "hts_ok (\<lambda>p. height (heap s p)) r"
    and bal: "balanced l" "balanced r"
    and d2: "\<bar>ht l - ht r\<bar> \<le> 2"
  shows "\<exists>s' n' t'. avl_rebalance s n d = Some (s', n') \<and>
           reb_post s c (Br l n r) d s' n' t' \<and>
           (if \<bar>ht l - ht r\<bar> \<le> 1 then ht t' = 1 + max (ht l) (ht r)
            else ht t' = max (ht l) (ht r) \<or> ht t' = 1 + max (ht l) (ht r))"
proof -
  define s0 where "s0 = s\<lparr>heap := update_height (heap s) (Some n)\<rparr>"
  have nl: "n \<notin> addrs l" "n \<notin> addrs r" using sh by auto
  have lk: "left (heap s n) = ptr l" "right (heap s n) = ptr r" using sh by auto
  have gl: "get_height (heap s) (ptr l) = ht l" "get_height (heap s) (ptr r) = ht r"
    using get_height_ptr hts by auto
  have pn: "ptr l \<noteq> Some n" "ptr r \<noteq> Some n"
    using nl ptr_in_addrs by blast+
  have h0: "height (heap s0 p) = (if p = n then 1 + max (ht l) (ht r) else height (heap s p))" for p
    by (simp add: s0_def update_height_height lk gl)
  have fr0: "avl_frame s s0 {n}"
    by (simp add: avl_frame_def s0_def update_height_height)
  have cnt0: "counted d s s0" by (simp add: counted_def s0_def)
  have cs0: "cshaped (\<lambda>p. p) (heap s0) (root s0) c (Some n)"
    and sh0: "shaped (\<lambda>p. p) (heap s0) (cpar c) (Br l n r)"
    using cs sh by (simp_all add: s0_def)
  have hts0: "hts_ok (\<lambda>p. height (heap s0 p)) l" "hts_ok (\<lambda>p. height (heap s0 p)) r"
    using hts_ok_frame [OF fr0, of l] hts_ok_frame [OF fr0, of r] hts nl by auto
  have gb: "get_balance (heap s0) (Some n) = ht l - ht r"
    using lk gl pn by (simp add: get_balance_def s0_def get_height_update_other)
  have unf: "avl_rebalance s n d =
      (if ht l - ht r > 1 then
         do { s1 \<leftarrow> (if get_balance (heap s0) (left (heap s0 n)) < 0
                       then avl_rotate_left_opt s0 (left (heap s0 n)) d else Some s0);
              Some (avl_rotate_right s1 n d) }
       else if ht l - ht r < -1 then
         do { s1 \<leftarrow> (if get_balance (heap s0) (right (heap s0 n)) > 0
                       then avl_rotate_right_opt s0 (right (heap s0 n)) d else Some s0);
              Some (avl_rotate_left s1 n d) }
       else Some (s0, n))"
    unfolding avl_rebalance_def Let_def s0_def [symmetric] gb by simp
  consider (lh) "ht l - ht r > 1" | (rh) "ht l - ht r < -1" | (ok) "\<bar>ht l - ht r\<bar> \<le> 1"
    by linarith
  then show ?thesis
  proof cases
    case ok
    define t' where "t' = Br l n r"
    have "reb_post s c (Br l n r) d s0 n t'"
      unfolding reb_post_def t'_def using cs0 sh0 hts0 bal ok fr0 cnt0 avl_frame_mono [OF fr0]
      by (simp add: h0)
    moreover have "ht t' = 1 + max (ht l) (ht r)" by (simp add: t'_def)
    moreover have "avl_rebalance s n d = Some (s0, n)"
      unfolding unf using ok by auto
    ultimately show ?thesis using ok by (intro exI [of _ s0] exI [of _ n] exI [of _ t']) simp
  next
    case lh
    have "0 < ht l" using lh ht_nonneg [of r] by linarith
    then obtain ll x lr where l: "l = Br ll x lr" using ht_pos_iff [of l] by (cases l) auto
    have hv: "ht (Br ll x lr) = ht r + 2" unfolding l [symmetric] using lh d2 by linarith
    from avl_rebalance_left_heavy [OF cs0 sh0 [unfolded l] dj [unfolded l] hts0 [unfolded l]
        bal [unfolded l] hv, of d]
    obtain s' n' t' where r:
      "do { s1 \<leftarrow> (if get_balance (heap s0) (left (heap s0 n)) < 0
                    then avl_rotate_left_opt s0 (left (heap s0 n)) d else Some s0);
           Some (avl_rotate_right s1 n d) } = Some (s', n')"
      "reb_post s0 c (Br (Br ll x lr) n r) d s' n' t'"
      "ht t' = ht r + 2 \<or> ht t' = ht r + 3"
      by blast
    have e: "avl_rebalance s n d = Some (s', n')"
      unfolding unf using lh r(1) by simp
    have fr: "avl_frame s s' (addrs (Br l n r))"
      by (rule avl_frame_trans [OF fr0, of s' "addrs (Br l n r)"])
        (use r(2) l in \<open>auto simp: reb_post_def\<close>)
    have "reb_post s c (Br l n r) d s' n' t'"
      using r(2) fr counted_trans [OF cnt0, of s'] l unfolding reb_post_def by simp
    moreover have "ht t' = max (ht l) (ht r) \<or> ht t' = 1 + max (ht l) (ht r)"
      using r(3) hv [folded l] by (auto simp: max_def)
    ultimately show ?thesis using e lh by (intro exI [of _ s'] exI [of _ n'] exI [of _ t']) simp
  next
    case rh
    have "0 < ht r" using rh ht_nonneg [of l] by linarith
    then obtain rl x rr where rr: "r = Br rl x rr" using ht_pos_iff [of r] by (cases r) auto
    have hv: "ht (Br rl x rr) = ht l + 2" unfolding rr [symmetric] using rh d2 by linarith
    from avl_rebalance_right_heavy [OF cs0 sh0 [unfolded rr] dj [unfolded rr] hts0 [unfolded rr]
        bal [unfolded rr] hv, of d]
    obtain s' n' t' where r':
      "do { s1 \<leftarrow> (if get_balance (heap s0) (right (heap s0 n)) > 0
                    then avl_rotate_right_opt s0 (right (heap s0 n)) d else Some s0);
           Some (avl_rotate_left s1 n d) } = Some (s', n')"
      "reb_post s0 c (Br l n (Br rl x rr)) d s' n' t'"
      "ht t' = ht l + 2 \<or> ht t' = ht l + 3"
      by blast
    have e: "avl_rebalance s n d = Some (s', n')"
      unfolding unf using rh r'(1) by simp
    have fr: "avl_frame s s' (addrs (Br l n r))"
      by (rule avl_frame_trans [OF fr0, of s' "addrs (Br l n r)"])
        (use r'(2) rr in \<open>auto simp: reb_post_def\<close>)
    have "reb_post s c (Br l n r) d s' n' t'"
      using r'(2) fr counted_trans [OF cnt0, of s'] rr unfolding reb_post_def by simp
    moreover have "ht t' = max (ht l) (ht r) \<or> ht t' = 1 + max (ht l) (ht r)"
      using r'(3) hv [folded rr] by (auto simp: max_def)
    ultimately show ?thesis using e rh by (intro exI [of _ s'] exI [of _ n'] exI [of _ t']) simp
  qed
qed

fun avl_ctx :: "(nat \<Rightarrow> int) \<Rightarrow> frame list \<Rightarrow> int \<Rightarrow> bool" where
  "avl_ctx hf [] k = True"
| "avl_ctx hf ((d, q, sib) # c) k =
     (hts_ok hf sib \<and> balanced sib \<and> \<bar>k - ht sib\<bar> \<le> 1 \<and> avl_ctx hf c (1 + max k (ht sib)))"

lemma ht_fill: "ht (fill (d, q, sib) t) = 1 + max (ht t) (ht sib)"
  by (cases d) (simp_all add: max.commute)

lemma avl_plug:
  "hts_ok hf (plug c t) \<Longrightarrow> balanced (plug c t) \<Longrightarrow>
   hts_ok hf t \<and> balanced t \<and> avl_ctx hf c (ht t)"
proof (induction c arbitrary: t)
  case Nil
  then show ?case by simp
next
  case (Cons f c)
  obtain d q sib where f: "f = (d, q, sib)" by (cases f)
  from Cons.IH [of "fill f t"] Cons.prems
  have 1: "hts_ok hf (fill f t)" "balanced (fill f t)" "avl_ctx hf c (ht (fill f t))"
    by simp_all
  show ?case using 1 unfolding f ht_fill by (cases d) (auto simp: abs_minus_commute)
qed

lemma avl_ctx_cong:
  "(\<And>a. a \<in> caddrs c \<Longrightarrow> hf' a = hf a) \<Longrightarrow> avl_ctx hf' c k = avl_ctx hf c k"
proof (induction c arbitrary: k)
  case Nil
  show ?case by simp
next
  case (Cons f c)
  obtain d q sib where f: "f = (d, q, sib)" by (cases f)
  have 1: "hts_ok hf' sib = hts_ok hf sib"
    by (rule hts_ok_cong) (use Cons.prems f in auto)
  have 2: "avl_ctx hf' c k' = avl_ctx hf c k'" for k'
    by (rule Cons.IH) (use Cons.prems f in auto)
  show ?case unfolding f using 1 2 by simp
qed

lemma shaped_parent: "shaped enc h par t \<Longrightarrow> ptr t = Some a \<Longrightarrow> parent (h a) = enc par"
  by (cases t) auto

lemma fill_cases:
  obtains (L) q sib where "f = (Lft, q, sib)" | (R) q sib where "f = (Rgt, q, sib)"
  by (cases f; cases "fst f") auto

definition walk_post :: "'a avl_tree \<Rightarrow> ptree \<Rightarrow> bool \<Rightarrow> 'a avl_tree \<Rightarrow> ptree \<Rightarrow> bool" where
  "walk_post s t d s' t' \<longleftrightarrow>
     root s' = ptr t' \<and> shaped (\<lambda>p. p) (heap s') None t' \<and>
     hts_ok (\<lambda>p. height (heap s' p)) t' \<and> balanced t' \<and>
     inorder_refs t' = inorder_refs t \<and> avl_frame s s' (addrs t) \<and> counted d s s'"

lemma avl_insert_walk_correct:
  fixes s :: "'a avl_tree"
  assumes "cshaped (\<lambda>p. p) (heap s) (root s) c (ptr t)"
    and "shaped (\<lambda>p. p) (heap s) (cpar c) t"
    and "addrs t \<inter> caddrs c = {}"
    and "hts_ok (\<lambda>p. height (heap s p)) t" and "balanced t"
    and "avl_ctx (\<lambda>p. height (heap s p)) c k"
    and "k \<le> ht t" and "ht t \<le> k + 1"
  shows "\<exists>s' t'. avl_insert_walk s (cpar c) = Some s' \<and> walk_post s (plug c t) False s' t'"
  using assms
proof (induction c arbitrary: s t k)
  case Nil
  have "avl_insert_walk s None = Some s" by (subst avl_insert_walk.simps) simp
  moreover have "walk_post s t False s t"
    using Nil.prems by (simp add: walk_post_def)
  ultimately show ?case by auto
next
  case (Cons f c)
  obtain d q sib where f: "f = (d, q, sib)" by (cases f)
  let ?hf = "\<lambda>p. height (heap s p)"
  define l where "l = (case d of Lft \<Rightarrow> t | Rgt \<Rightarrow> sib)"
  define r where "r = (case d of Lft \<Rightarrow> sib | Rgt \<Rightarrow> t)"
  have fl: "fill f t = Br l q r" unfolding f l_def r_def by (cases d) simp_all
  have ctx: "hts_ok ?hf sib" "balanced sib" "\<bar>k - ht sib\<bar> \<le> 1"
    "avl_ctx ?hf c (1 + max k (ht sib))"
    using Cons.prems(6) f by simp_all
  have csq: "cshaped (\<lambda>p. p) (heap s) (root s) c (Some q)"
    using Cons.prems(1) f by simp
  have shq: "shaped (\<lambda>p. p) (heap s) (cpar c) (Br l q r)"
    using Cons.prems(1,2,3) unfolding f l_def r_def by (cases d) auto
  have djq: "addrs (Br l q r) \<inter> caddrs c = {}"
    using Cons.prems(1,3) unfolding f l_def r_def by (cases d) auto
  have hlr: "hts_ok ?hf l" "hts_ok ?hf r" "balanced l" "balanced r"
    using ctx Cons.prems(4,5) unfolding l_def r_def by (cases d; simp)+
  have hts: "ht l = (case d of Lft \<Rightarrow> ht t | Rgt \<Rightarrow> ht sib)" "ht r = (case d of Lft \<Rightarrow> ht sib | Rgt \<Rightarrow> ht t)"
    unfolding l_def r_def by (cases d; simp)+
  have d2: "\<bar>ht l - ht r\<bar> \<le> 2"
    using ctx(3) Cons.prems(7,8) unfolding hts by (cases d) auto
  from avl_rebalance_correct [OF csq shq djq hlr d2, of False]
  obtain s1 n' t' where rb: "avl_rebalance s q False = Some (s1, n')"
    "reb_post s c (Br l q r) False s1 n' t'"
    "if \<bar>ht l - ht r\<bar> \<le> 1 then ht t' = 1 + max (ht l) (ht r)
     else ht t' = max (ht l) (ht r) \<or> ht t' = 1 + max (ht l) (ht r)"
    by blast
  note p = rb(2) [unfolded reb_post_def]
  have par: "parent (heap s1 n') = cpar c"
    using shaped_parent [of "\<lambda>p. p" "heap s1" "cpar c" t' n'] p by simp
  have k1: "1 + max k (ht sib) \<le> ht t'" "ht t' \<le> 1 + max k (ht sib) + 1"
    using rb(3) ctx(3) Cons.prems(7,8) unfolding hts by (cases d; simp split: if_splits; linarith)+
  have ctx1: "avl_ctx (\<lambda>p. height (heap s1 p)) c (1 + max k (ht sib))"
  proof -
    have "avl_ctx (\<lambda>p. height (heap s1 p)) c (1 + max k (ht sib)) = avl_ctx ?hf c (1 + max k (ht sib))"
      by (rule avl_ctx_cong) (use p djq in \<open>auto simp: avl_frame_def\<close>)
    then show ?thesis using ctx(4) by simp
  qed
  have dj1: "addrs t' \<inter> caddrs c = {}"
    using djq addrs_inorder [of t' "Br l q r"] p by simp
  have cs1: "cshaped (\<lambda>p. p) (heap s1) (root s1) c (ptr t')" using p by simp
  from Cons.IH [OF cs1 _ dj1 _ _ ctx1 k1] p
  obtain s' T where w: "avl_insert_walk s1 (cpar c) = Some s'" "walk_post s1 (plug c t') False s' T"
    by blast
  have "avl_insert_walk s (cpar (f # c)) = Some s'"
    using rb(1) par w(1) unfolding f by (subst avl_insert_walk.simps) simp
  moreover have "walk_post s (plug (f # c) t) False s' T"
  proof -
    have io: "inorder_refs (plug c t') = inorder_refs (plug (f # c) t)"
      using p by (simp add: inorder_refs_plug fl)
    have ad: "addrs (plug c t') = addrs (plug (f # c) t)"
      using addrs_inorder [OF io] .
    have "avl_frame s s' (addrs (plug (f # c) t))"
      by (rule avl_frame_trans [of s s1 "addrs (Br l q r)" s' "addrs (plug c t')"])
        (use p w(2) ad fl in \<open>auto simp: walk_post_def\<close>)
    then show ?thesis
      using w(2) io p counted_trans [of False s s1 s'] unfolding walk_post_def by simp
  qed
  ultimately show ?case by blast
qed

definition avl_abs :: "('a::linorder) avl_tree \<Rightarrow> ptree \<Rightarrow> bool" where
  "avl_abs s t \<longleftrightarrow>
     root s = ptr t \<and> shaped (\<lambda>p. p) (heap s) None t \<and> addrs t \<subseteq> {..<next_ref s} \<and>
     ordered (\<lambda>a. value (heap s a)) t \<and> hts_ok (\<lambda>a. height (heap s a)) t \<and> balanced t"

lemma avl_insert_search_descend:
  "shaped (\<lambda>p. p) h par t \<Longrightarrow> cpar c = par \<Longrightarrow>
   avl_insert_search h (ptr t) par v =
     Some (case descend (\<lambda>a. value (h a)) v t c of
             (c', Tip) \<Rightarrow> Slot (cpar c') | (c', Br _ _ _) \<Rightarrow> Duplicate)"
proof (induction t arbitrary: par c)
  case Tip
  then show ?case by (subst avl_insert_search.simps) simp
next
  case (Br l a r)
  show ?case
  proof (cases "v = value (h a)")
    case True
    then show ?thesis by (subst avl_insert_search.simps) simp
  next
    case False
    show ?thesis
    proof (cases "v < value (h a)")
      case True
      from Br.IH(1) [of "Some a" "(Lft, a, r) # c"] Br.prems False True
      show ?thesis by (subst avl_insert_search.simps) simp
    next
      case ge: False
      from Br.IH(2) [of "Some a" "(Rgt, a, l) # c"] Br.prems False ge
      show ?thesis by (subst avl_insert_search.simps) simp
    qed
  qed
qed

lemma avl_insert_correct:
  fixes s :: "('a::linorder) avl_tree"
  assumes inv: "avl_abs s t"
  shows "\<exists>s' t' b. avl_insert s v = Some (s', b) \<and> avl_abs s' t' \<and>
           keys_of (heap s') t' = insert v (keys_of (heap s) t) \<and>
           (b \<longleftrightarrow> v \<notin> keys_of (heap s) t) \<and> (\<not> b \<longrightarrow> s' = s) \<and>
           counted False s s' \<and> guard_hits s' = guard_hits s"
proof (cases t)
  case Tip
  define n where "n = next_ref s"
  define s' where "s' = (fst (avl_new_node s v None))\<lparr>root := Some n\<rparr>"
  have r: "root s = None" using inv Tip by (simp add: avl_abs_def)
  have e: "avl_insert s v = Some (s', True)"
    using r by (simp add: avl_insert_def avl_new_node_def s'_def n_def)
  have "avl_abs s' (Br Tip n Tip)"
    by (simp add: avl_abs_def s'_def avl_new_node_def n_def ordered_def)
  moreover have "keys_of (heap s') (Br Tip n Tip) = insert v (keys_of (heap s) t)"
    by (simp add: keys_of_def s'_def avl_new_node_def n_def Tip)
  ultimately show ?thesis using e Tip
    by (intro exI [of _ s'] exI [of _ "Br Tip n Tip"] exI [of _ True])
      (simp add: s'_def avl_new_node_def keys_of_def counted_def)
next
  case (Br l0 a0 r0)
  let ?val = "\<lambda>a. value (heap s a)"
  let ?hf = "\<lambda>a. height (heap s a)"
  have rt: "root s = ptr t" and sh: "shaped (\<lambda>p. p) (heap s) None t"
    and fresh: "addrs t \<subseteq> {..<next_ref s}" and ord: "ordered ?val t"
    and ho: "hts_ok ?hf t" "balanced t"
    using inv by (simp_all add: avl_abs_def)
  obtain c t1 where d: "descend ?val v t [] = (c, t1)" by (cases "descend ?val v t []")
  have pl: "plug c t1 = t" using descend_plug [OF d] by simp
  have po: "path_ok ?val v c" using descend_path_ok [OF d ord] by simp
  have search: "avl_insert_search (heap s) (root s) None v =
      Some (case t1 of Tip \<Rightarrow> Slot (cpar c) | Br _ _ _ \<Rightarrow> Duplicate)"
    using avl_insert_search_descend [OF sh, of "[]" v] d rt by simp
  have mem: "v \<in> keys_of (heap s) t \<longleftrightarrow> t1 \<noteq> Tip"
    unfolding keys_of_def by (rule keys_of_plug_found [OF d ord])
  have rs: "root s = Some a0" using rt Br by simp
  show ?thesis
  proof (cases t1)
    case (Br l1 a1 r1)
    have "avl_insert s v = Some (s, False)"
      using search Br rs by (simp add: avl_insert_def)
    then show ?thesis using inv mem Br
      by (intro exI [of _ s] exI [of _ t] exI [of _ False]) auto
  next
    case Tip
    have "c \<noteq> []" using descend_nonempty [of ?val v t "[]" c] d Tip \<open>t = Br l0 a0 r0\<close> by simp
    then obtain e q u c' where c: "c = (e, q, u) # c'" by (cases c) auto
    define n where "n = next_ref s"
    define h1 where "h1 = (heap s)(n := \<lparr>value = v, parent = Some q, left = None, right = None, height = 1\<rparr>)"
    define h2 where "h2 = (if v < value (h1 q) then set_left h1 q (Some n) else set_right h1 q (Some n))"
    define s2 where "s2 = s\<lparr>next_ref := Suc n, heap := h2\<rparr>"
    have nt: "n \<notin> addrs t" using fresh by (auto simp: n_def)
    then have nc: "n \<notin> caddrs c" using pl [symmetric] by simp
    then have nq: "n \<noteq> q" using c by auto
    have cs0: "cshaped (\<lambda>p. p) (heap s) (root s) c None \<and> shaped (\<lambda>p. p) (heap s) (cpar c) Tip \<and> addrs Tip \<inter> caddrs c = {}"
      using shaped_plugD [of "heap s" c Tip "root s"] sh rt pl Tip by simp
    have "cshaped (\<lambda>p. p) h1 (root s) c None"
      using cs0 nc by (simp add: h1_def)
    then have cs1: "cshaped (\<lambda>p. p) h1 (root s) ((e, q, u) # c') None"
      unfolding c .
    have side: "e = Lft \<longleftrightarrow> v < value (h1 q)"
      using path_ok_head [of ?val v e q u c'] po c nq by (simp add: h1_def)
    note ll = link_new_leaf [OF cs1 _ _ _ _ side, of n, folded h2_def]
    have cs2: "cshaped (\<lambda>p. p) (heap s2) (root s2) c (ptr (Br Tip n Tip))"
      and sh2: "shaped (\<lambda>p. p) (heap s2) (cpar c) (Br Tip n Tip)"
      using ll nc c by (simp_all add: s2_def h1_def)
    have val2: "value (heap s2 p) = (if p = n then v else ?val p)"
      and hf2: "height (heap s2 p) = (if p = n then 1 else ?hf p)" for p
      by (simp_all add: s2_def h2_def h1_def)
    have ins: "avl_insert s v = do { s' \<leftarrow> avl_insert_walk s2 (cpar c); Some (s', True) }"
      using search Tip rs c nq
      by (simp add: avl_insert_def avl_new_node_def s2_def h2_def h1_def n_def)
    have dj2: "addrs (Br Tip n Tip) \<inter> caddrs c = {}" using nc by simp
    have co: "avl_ctx (\<lambda>a. height (heap s2 a)) c 0"
    proof -
      have "avl_ctx ?hf c (ht Tip)" using avl_plug [of ?hf c Tip] ho pl Tip by simp
      moreover have "avl_ctx (\<lambda>a. height (heap s2 a)) c 0 = avl_ctx ?hf c 0"
        by (rule avl_ctx_cong) (use nc hf2 in auto)
      ultimately show ?thesis by simp
    qed
    have h2ok: "hts_ok (\<lambda>a. height (heap s2 a)) (Br Tip n Tip)" "balanced (Br Tip n Tip)"
      by (simp_all add: hf2)
    from avl_insert_walk_correct [OF cs2 sh2 dj2 h2ok co]
    obtain s' t' where r: "avl_insert_walk s2 (cpar c) = Some s'"
      "walk_post s2 (plug c (Br Tip n Tip)) False s' t'"
      by auto
    note p = r(2) [unfolded walk_post_def]
    have val': "(\<lambda>a. value (heap s' a)) = (\<lambda>a. value (heap s2 a))"
      using p by (simp add: avl_frame_def)
    have ad: "addrs t' = insert n (addrs t)"
      using addrs_inorder [of t' "plug c (Br Tip n Tip)"] p pl [symmetric] Tip by simp
    have o2: "ordered (\<lambda>a. value (heap s2 a)) (plug c (Br Tip n Tip))"
    proof (rule ordered_plug_new [of ?val _ _ v])
      show "ordered ?val (plug c Tip)" using ord pl Tip by simp
      show "path_ok (\<lambda>a. value (heap s2 a)) v c"
      proof -
        have "path_ok (\<lambda>a. value (heap s2 a)) v c = path_ok ?val v c"
          by (rule path_ok_cong) (use nc val2 in auto)
        then show ?thesis using po by simp
      qed
      show "value (heap s2 n) = v" by (simp add: val2)
      show "value (heap s2 a) = ?val a" if "a \<in> caddrs c" for a
        using that nc by (auto simp: val2)
    qed
    have io: "inorder_refs t' = inorder_refs (plug c (Br Tip n Tip))" using p by simp
    have "ordered (\<lambda>a. value (heap s2 a)) t'"
      using o2 ordered_inorder [OF io, of "\<lambda>a. value (heap s2 a)"] by simp
    then have "avl_abs s' t'"
      unfolding avl_abs_def val'
      using p ad fresh by (auto simp: avl_frame_def s2_def n_def)
    moreover have "keys_of (heap s') t' = insert v (keys_of (heap s) t)"
      unfolding keys_of_def val' ad using nt by (auto simp: val2)
    moreover have "avl_insert s v = Some (s', True)"
      using ins r(1) by simp
    moreover have "counted False s s'" "guard_hits s' = guard_hits s"
      using p by (simp_all add: counted_def avl_frame_def s2_def)
    ultimately show ?thesis using mem Tip
      by (intro exI [of _ s'] exI [of _ t'] exI [of _ True]) simp
  qed
qed

lemma set_parent_same: "parent (h p) = v \<Longrightarrow> set_parent h p v = h"
  by (auto simp: set_parent_def)

definition del_post :: "'a avl_tree \<Rightarrow> frame list \<Rightarrow> ptree \<Rightarrow> 'a avl_tree \<Rightarrow> ptree \<Rightarrow> bool" where
  "del_post s c t s' t' \<longleftrightarrow>
     (\<exists>p. cshaped (\<lambda>p. p) (heap s') (root s') c p) \<and>
     shaped (\<lambda>p. p) (heap s') (cpar c) t' \<and> addrs t' \<subseteq> addrs t \<and>
     hts_ok (\<lambda>p. height (heap s' p)) t' \<and> balanced t' \<and>
     ht t' \<le> ht t \<and> ht t \<le> ht t' + 1 \<and>
     (\<forall>p. p \<notin> addrs t \<longrightarrow> value (heap s' p) = value (heap s p) \<and> height (heap s' p) = height (heap s p)) \<and>
     next_ref s' = next_ref s \<and> guard_hits s' = guard_hits s \<and> counted True s s'"

definition relink_left :: "'a avl_tree \<Rightarrow> nat \<Rightarrow> nat option \<Rightarrow> 'a avl_tree" where
  "relink_left s n l =
     (let s = s\<lparr>heap := set_left (heap s) n l\<rparr>
      in case left (heap s n) of None \<Rightarrow> s
         | Some c \<Rightarrow> s\<lparr>heap := set_parent (heap s) c (Some n)\<rparr>)"

definition relink_right :: "'a avl_tree \<Rightarrow> nat \<Rightarrow> nat option \<Rightarrow> 'a avl_tree" where
  "relink_right s n r =
     (let s = s\<lparr>heap := set_right (heap s) n r\<rparr>
      in case right (heap s n) of None \<Rightarrow> s
         | Some c \<Rightarrow> s\<lparr>heap := set_parent (heap s) c (Some n)\<rparr>)"

lemma relink_left_eq:
  "shaped (\<lambda>p. p) (heap s) (Some n) l' \<Longrightarrow> relink_left s n (ptr l') = s\<lparr>heap := set_left (heap s) n (ptr l')\<rparr>"
  by (cases l') (simp_all add: relink_left_def set_parent_same)

lemma relink_right_eq:
  "shaped (\<lambda>p. p) (heap s) (Some n) r' \<Longrightarrow> relink_right s n (ptr r') = s\<lparr>heap := set_right (heap s) n (ptr r')\<rparr>"
  by (cases r') (simp_all add: relink_right_def set_parent_same)

lemma avl_delete_up_left:
  fixes s :: "'a avl_tree"
  assumes sh: "shaped (\<lambda>p. p) (heap s) (cpar c) (Br l n r)"
    and dj: "addrs (Br l n r) \<inter> caddrs c = {}"
    and post: "del_post s ((Lft, n, r) # c) l s1 l'"
    and hr: "hts_ok (\<lambda>p. height (heap s p)) r" and br: "balanced r"
    and b0: "\<bar>ht l - ht r\<bar> \<le> 1"
  shows "\<exists>s' n' t'. avl_rebalance (relink_left s1 n (ptr l')) n True = Some (s', n') \<and>
           ptr t' = Some n' \<and> del_post s c (Br l n r) s' t' \<and>
           inorder_refs t' = inorder_refs l' @ n # inorder_refs r \<and>
           (\<forall>p. value (heap s' p) = value (heap s1 p))"
proof -
  let ?c1 = "(Lft, n, r) # c"
  note p = post [unfolded del_post_def]
  obtain p0 where cs1: "cshaped (\<lambda>p. p) (heap s1) (root s1) ?c1 p0" using p by blast
  have shl: "shaped (\<lambda>p. p) (heap s1) (Some n) l'" using p by simp
  have sub: "addrs l' \<subseteq> addrs l" using p by simp
  have nl: "n \<notin> addrs l" "n \<notin> addrs r" "addrs l \<inter> addrs r = {}" "n \<notin> caddrs c"
    using sh dj by auto
  define s3 where "s3 = s1\<lparr>heap := set_left (heap s1) n (ptr l')\<rparr>"
  have s3: "relink_left s1 n (ptr l') = s3"
    unfolding s3_def by (rule relink_left_eq [OF shl])
  have f1: "parent (heap s1 n) = cpar c" "right (heap s1 n) = ptr r"
    "shaped (\<lambda>p. p) (heap s1) (Some n) r" "cshaped (\<lambda>p. p) (heap s1) (root s1) c (Some n)"
    using cs1 by simp_all
  have cs3: "cshaped (\<lambda>p. p) (heap s3) (root s3) c (Some n)"
    using f1(4) nl(4) by (simp add: s3_def)
  have nl': "n \<notin> addrs l'" "addrs l' \<inter> addrs r = {}" using sub nl by auto
  have sh3: "shaped (\<lambda>p. p) (heap s3) (cpar c) (Br l' n r)"
    using f1 shl nl nl' by (simp add: s3_def)
  have dj3: "addrs (Br l' n r) \<inter> caddrs c = {}" using dj sub by auto
  have hf3: "height (heap s3 q) = height (heap s1 q)" and v3: "value (heap s3 q) = value (heap s1 q)" for q
    by (simp_all add: s3_def)
  have hl3: "hts_ok (\<lambda>p. height (heap s3 p)) l'" using p by (simp add: hf3)
  have hr3: "hts_ok (\<lambda>p. height (heap s3 p)) r"
  proof -
    have "hts_ok (\<lambda>p. height (heap s3 p)) r = hts_ok (\<lambda>p. height (heap s p)) r"
      by (rule hts_ok_cong) (use p nl in \<open>auto simp: hf3\<close>)
    then show ?thesis using hr by simp
  qed
  have bl: "balanced l'" using p by simp
  have d2: "\<bar>ht l' - ht r\<bar> \<le> 2" using p b0 by linarith
  from avl_rebalance_correct [OF cs3 sh3 dj3 hl3 hr3 bl br d2, of True]
  obtain s' n' t' where rb: "avl_rebalance s3 n True = Some (s', n')"
    "reb_post s3 c (Br l' n r) True s' n' t'"
    "if \<bar>ht l' - ht r\<bar> \<le> 1 then ht t' = 1 + max (ht l') (ht r)
     else ht t' = max (ht l') (ht r) \<or> ht t' = 1 + max (ht l') (ht r)"
    by blast
  note q = rb(2) [unfolded reb_post_def]
  have hb: "ht t' \<le> ht (Br l n r)" "ht (Br l n r) \<le> ht t' + 1"
    using rb(3) p b0 by (simp_all split: if_splits; linarith)+
  have ad: "addrs t' \<subseteq> addrs (Br l n r)"
    using addrs_inorder [of t' "Br l' n r"] q sub by auto
  have out: "value (heap s' q) = value (heap s q) \<and> height (heap s' q) = height (heap s q)"
    if "q \<notin> addrs (Br l n r)" for q
  proof -
    have "q \<notin> addrs (Br l' n r)" "q \<notin> addrs l" using that sub by auto
    then show ?thesis using q p by (simp add: avl_frame_def hf3 v3)
  qed
  have "del_post s c (Br l n r) s' t'"
    unfolding del_post_def
    using q hb ad out p counted_trans [of True s s1 s'] 
    by (auto simp: avl_frame_def s3_def counted_def)
  moreover have "\<forall>p. value (heap s' p) = value (heap s1 p)"
    using q by (simp add: avl_frame_def v3)
  moreover have "inorder_refs t' = inorder_refs l' @ n # inorder_refs r" "ptr t' = Some n'"
    using q by simp_all
  ultimately show ?thesis using rb(1) unfolding s3 by blast
qed

lemma avl_delete_up_right:
  fixes s :: "'a avl_tree"
  assumes sh: "shaped (\<lambda>p. p) (heap s) (cpar c) (Br l n r)"
    and dj: "addrs (Br l n r) \<inter> caddrs c = {}"
    and post: "del_post s ((Rgt, n, l) # c) r s1 r'"
    and hr: "hts_ok (\<lambda>p. height (heap s p)) l" and br: "balanced l"
    and b0: "\<bar>ht l - ht r\<bar> \<le> 1"
  shows "\<exists>s' n' t'. avl_rebalance (relink_right s1 n (ptr r')) n True = Some (s', n') \<and>
           ptr t' = Some n' \<and> del_post s c (Br l n r) s' t' \<and>
           inorder_refs t' = inorder_refs l @ n # inorder_refs r' \<and>
           (\<forall>p. value (heap s' p) = value (heap s1 p))"
proof -
  let ?c1 = "(Rgt, n, l) # c"
  note p = post [unfolded del_post_def]
  obtain p0 where cs1: "cshaped (\<lambda>p. p) (heap s1) (root s1) ?c1 p0" using p by blast
  have shl: "shaped (\<lambda>p. p) (heap s1) (Some n) r'" using p by simp
  have sub: "addrs r' \<subseteq> addrs r" using p by simp
  have nl: "n \<notin> addrs l" "n \<notin> addrs r" "addrs l \<inter> addrs r = {}" "n \<notin> caddrs c"
    using sh dj by auto
  define s3 where "s3 = s1\<lparr>heap := set_right (heap s1) n (ptr r')\<rparr>"
  have s3: "relink_right s1 n (ptr r') = s3"
    unfolding s3_def by (rule relink_right_eq [OF shl])
  have f1: "parent (heap s1 n) = cpar c" "left (heap s1 n) = ptr l"
    "shaped (\<lambda>p. p) (heap s1) (Some n) l" "cshaped (\<lambda>p. p) (heap s1) (root s1) c (Some n)"
    using cs1 by simp_all
  have cs3: "cshaped (\<lambda>p. p) (heap s3) (root s3) c (Some n)"
    using f1(4) nl(4) by (simp add: s3_def)
  have nl': "n \<notin> addrs r'" "addrs l \<inter> addrs r' = {}" using sub nl by auto
  have sh3: "shaped (\<lambda>p. p) (heap s3) (cpar c) (Br l n r')"
    using f1 shl nl nl' by (simp add: s3_def)
  have dj3: "addrs (Br l n r') \<inter> caddrs c = {}" using dj sub by auto
  have hf3: "height (heap s3 q) = height (heap s1 q)" and v3: "value (heap s3 q) = value (heap s1 q)" for q
    by (simp_all add: s3_def)
  have hl3: "hts_ok (\<lambda>p. height (heap s3 p)) r'" using p by (simp add: hf3)
  have hr3: "hts_ok (\<lambda>p. height (heap s3 p)) l"
  proof -
    have "hts_ok (\<lambda>p. height (heap s3 p)) l = hts_ok (\<lambda>p. height (heap s p)) l"
      by (rule hts_ok_cong) (use p nl in \<open>auto simp: hf3\<close>)
    then show ?thesis using hr by simp
  qed
  have bl: "balanced r'" using p by simp
  have d2: "\<bar>ht l - ht r'\<bar> \<le> 2" using p b0 by linarith
  from avl_rebalance_correct [OF cs3 sh3 dj3 hr3 hl3 br bl d2, of True]
  obtain s' n' t' where rb: "avl_rebalance s3 n True = Some (s', n')"
    "reb_post s3 c (Br l n r') True s' n' t'"
    "if \<bar>ht l - ht r'\<bar> \<le> 1 then ht t' = 1 + max (ht l) (ht r')
     else ht t' = max (ht l) (ht r') \<or> ht t' = 1 + max (ht l) (ht r')"
    by blast
  note q = rb(2) [unfolded reb_post_def]
  have hb: "ht t' \<le> ht (Br l n r)" "ht (Br l n r) \<le> ht t' + 1"
    using rb(3) p b0 by (simp_all split: if_splits; linarith)+
  have ad: "addrs t' \<subseteq> addrs (Br l n r)"
    using addrs_inorder [of t' "Br l n r'"] q sub by auto
  have out: "value (heap s' q) = value (heap s q) \<and> height (heap s' q) = height (heap s q)"
    if "q \<notin> addrs (Br l n r)" for q
  proof -
    have "q \<notin> addrs (Br l n r')" "q \<notin> addrs r" using that sub by auto
    then show ?thesis using q p by (simp add: avl_frame_def hf3 v3)
  qed
  have "del_post s c (Br l n r) s' t'"
    unfolding del_post_def
    using q hb ad out p counted_trans [of True s s1 s'] 
    by (auto simp: avl_frame_def s3_def counted_def)
  moreover have "\<forall>p. value (heap s' p) = value (heap s1 p)"
    using q by (simp add: avl_frame_def v3)
  moreover have "inorder_refs t' = inorder_refs l @ n # inorder_refs r'" "ptr t' = Some n'"
    using q by simp_all
  ultimately show ?thesis using rb(1) unfolding s3 by blast
qed

lemma avl_contains_loop_descend:
  "shaped (\<lambda>p. p) h par t \<Longrightarrow>
   avl_contains_loop h (ptr t) v =
     Some (case descend (\<lambda>a. value (h a)) v t c of (c', Tip) \<Rightarrow> False | (c', Br _ _ _) \<Rightarrow> True)"
proof (induction t arbitrary: par c)
  case Tip
  then show ?case by (subst avl_contains_loop.simps) simp
next
  case (Br l a r)
  show ?case
  proof (cases "v = value (h a)")
    case True
    then show ?thesis by (subst avl_contains_loop.simps) simp
  next
    case False
    show ?thesis
    proof (cases "v < value (h a)")
      case True
      from Br.IH(1) [of "Some a" "(Lft, a, r) # c"] Br.prems False True
      show ?thesis by (subst avl_contains_loop.simps) simp
    next
      case ge: False
      from Br.IH(2) [of "Some a" "(Rgt, a, l) # c"] Br.prems False ge
      show ?thesis by (subst avl_contains_loop.simps) simp
    qed
  qed
qed

lemma avl_leftmost_correct:
  "shaped (\<lambda>p. p) h par (Br l a r) \<Longrightarrow> avl_leftmost h a = Some (hd (inorder_refs (Br l a r)))"
proof (induction l arbitrary: par a r)
  case Tip
  then show ?case by (subst avl_leftmost.simps) simp
next
  case (Br l1 b l2)
  have "avl_leftmost h b = Some (hd (inorder_refs (Br l1 b l2)))"
    by (rule Br.IH(1) [of "Some a"]) (use Br.prems in simp)
  moreover have "hd (inorder_refs (Br (Br l1 b l2) a r)) = hd (inorder_refs (Br l1 b l2))"
    by (simp add: hd_append)
  moreover have "left (h a) = Some b" using Br.prems by simp
  ultimately show ?case by (subst avl_leftmost.simps) simp
qed

lemma avl_delete_node_unfold:
  "avl_delete_node s (Some n) v =
     (if v < value (heap s n) then
        do { (s1, l) \<leftarrow> avl_delete_node s (left (heap s n)) v;
             (s2, n') \<leftarrow> avl_rebalance (relink_left s1 n l) n True;
             Some (s2, Some n') }
      else if v > value (heap s n) then
        do { (s1, r) \<leftarrow> avl_delete_node s (right (heap s n)) v;
             (s2, n') \<leftarrow> avl_rebalance (relink_right s1 n r) n True;
             Some (s2, Some n') }
      else if left (heap s n) = None \<or> right (heap s n) = None then
        (let replacement = (if left (heap s n) \<noteq> None then left (heap s n) else right (heap s n))
         in Some (case replacement of None \<Rightarrow> s
                  | Some c \<Rightarrow> s\<lparr>heap := set_parent (heap s) c (parent (heap s n))\<rparr>, replacement))
      else
        (case right (heap s n) of None \<Rightarrow> None
         | Some r0 \<Rightarrow>
             do { succ \<leftarrow> avl_leftmost (heap s) r0;
                  let s0 = s\<lparr>heap := set_value (heap s) n (value (heap s succ))\<rparr>;
                  (s1, r) \<leftarrow> avl_delete_node s0 (right (heap s0 n)) (value (heap s0 succ));
                  (s2, n') \<leftarrow> avl_rebalance (relink_right s1 n r) n True;
                  Some (s2, Some n') }))"
  by (subst avl_delete_node.simps)
    (simp add: relink_left_def relink_right_def Let_def split: option.splits prod.splits bind_splits)

lemma filter_sorted_lt:
  fixes v :: "'v::linorder"
  assumes "\<forall>x \<in> set ys. v < x"
  shows "filter (\<lambda>x. x \<noteq> v) (xs @ ys) = filter (\<lambda>x. x \<noteq> v) xs @ ys"
proof -
  have "filter (\<lambda>x. x \<noteq> v) ys = ys" using assms by (auto simp: filter_id_conv)
  then show ?thesis by simp
qed

lemma filter_sorted_gt:
  fixes v :: "'v::linorder"
  assumes "\<forall>x \<in> set xs. x < v"
  shows "filter (\<lambda>x. x \<noteq> v) (xs @ ys) = xs @ filter (\<lambda>x. x \<noteq> v) ys"
proof -
  have "filter (\<lambda>x. x \<noteq> v) xs = xs" using assms by (auto simp: filter_id_conv)
  then show ?thesis by simp
qed

lemma hd_filter_sorted:
  fixes xs :: "('v::linorder) list"
  assumes "sorted_wrt (<) xs" "xs \<noteq> []"
  shows "hd xs # filter (\<lambda>x. x \<noteq> hd xs) xs = xs"
proof (cases xs)
  case Nil
  then show ?thesis using assms by simp
next
  case (Cons y ys)
  have "filter (\<lambda>x. x \<noteq> y) ys = ys" using assms(1) Cons by (auto simp: filter_id_conv)
  then show ?thesis using Cons by simp
qed

lemma del_post_values:
  "del_post s0 c t s' t' \<Longrightarrow> (\<And>p. p \<notin> addrs t \<Longrightarrow> value (heap s0 p) = value (heap s p) \<and> height (heap s0 p) = height (heap s p)) \<Longrightarrow>
   next_ref s0 = next_ref s \<Longrightarrow> guard_hits s0 = guard_hits s \<Longrightarrow>
   rotations_insert s0 = rotations_insert s \<Longrightarrow> rotations_delete s0 = rotations_delete s \<Longrightarrow>
   del_post s c t s' t'"
  unfolding del_post_def counted_def by simp


text \<open>The node that a deletion of \<open>v\<close> unlinks: the node holding \<open>v\<close> when it has at most
  one child, the leftmost node of its right subtree otherwise.\<close>

fun victim :: "(nat \<Rightarrow> 'v::linorder) \<Rightarrow> 'v \<Rightarrow> ptree \<Rightarrow> nat" where
  "victim val v Tip = 0"
| "victim val v (Br l n r) =
     (if v < val n then victim val v l
      else if val n < v then victim val v r
      else if l = Tip \<or> r = Tip then n
      else hd (inorder_refs r))"

lemma hd_inorder_in: "t \<noteq> Tip \<Longrightarrow> hd (inorder_refs t) \<in> addrs t"
  unfolding set_inorder_refs [symmetric] by (rule hd_in_set) (cases t; simp)

lemma victim_in:
  "v \<in> val ` addrs t \<Longrightarrow> ordered val t \<Longrightarrow> victim val v t \<in> addrs t"
proof (induction t)
  case Tip
  then show ?case by simp
next
  case (Br l n r)
  have o: "ordered val l" "ordered val r" "\<forall>x \<in> addrs l. val x < val n"
    "\<forall>x \<in> addrs r. val n < val x"
    using Br.prems(2) by (simp_all add: ordered_Br)
  consider (lt) "v < val n" | (gt) "val n < v" | (eq) "v = val n" by fastforce
  then show ?case
  proof cases
    case lt
    then have "v \<in> val ` addrs l" using Br.prems(1) o(4) by auto
    then show ?thesis using Br.IH(1) o(1) lt by simp
  next
    case gt
    then have "v \<in> val ` addrs r" using Br.prems(1) o(3) by auto
    moreover have "\<not> v < val n" using gt by auto
    ultimately show ?thesis using Br.IH(2) o(2) gt by simp
  next
    case eq
    then show ?thesis using hd_inorder_in [of r] by simp
  qed
qed

lemma victim_cong:
  "(\<And>a. a \<in> addrs t \<Longrightarrow> val' a = val a) \<Longrightarrow> victim val' v t = victim val v t"
  by (induction t) auto

lemma victim_leftmost:
  "ordered val t \<Longrightarrow> t \<noteq> Tip \<Longrightarrow> victim val (val (hd (inorder_refs t))) t = hd (inorder_refs t)"
proof (induction t)
  case Tip
  then show ?case by simp
next
  case (Br l n r)
  have o: "ordered val l" "\<forall>x \<in> addrs l. val x < val n"
    using Br.prems(1) by (simp_all add: ordered_Br)
  show ?case
  proof (cases l)
    case Tip
    then show ?thesis by simp
  next
    case (Br l1 x l2)
    then have ne: "l \<noteq> Tip" by simp
    have hd: "hd (inorder_refs (ptree.Br l n r)) = hd (inorder_refs l)"
      using ne by (cases l) (simp_all add: hd_append)
    have "val (hd (inorder_refs l)) < val n" using o(2) hd_inorder_in [OF ne] by blast
    then show ?thesis unfolding hd using Br.IH(1) [OF o(1) ne] by simp
  qed
qed

lemma avl_delete_node_correct:
  fixes s :: "('a::linorder) avl_tree"
  assumes "cshaped (\<lambda>p. p) (heap s) (root s) c (ptr t)"
    and "shaped (\<lambda>p. p) (heap s) (cpar c) t"
    and "addrs t \<inter> caddrs c = {}"
    and "ordered (\<lambda>a. value (heap s a)) t"
    and "hts_ok (\<lambda>a. height (heap s a)) t" and "balanced t"
    and "v \<in> (\<lambda>a. value (heap s a)) ` addrs t"
  shows "\<exists>s' t'. avl_delete_node s (ptr t) v = Some (s', ptr t') \<and> del_post s c t s' t' \<and>
      map (\<lambda>a. value (heap s' a)) (inorder_refs t') =
        filter (\<lambda>x. x \<noteq> v) (map (\<lambda>a. value (heap s a)) (inorder_refs t)) \<and>
      addrs t' = addrs t - {victim (\<lambda>a. value (heap s a)) v t} \<and>
      (\<forall>p \<in> addrs t'. value (heap s' p) =
         (if value (heap s p) = v then value (heap s (victim (\<lambda>a. value (heap s a)) v t))
          else value (heap s p)))"
  using assms
proof (induction t arbitrary: s c v)
  case Tip
  then show ?case by simp
next
  case (Br l n r)
  let ?val = "\<lambda>a. value (heap s a)"
  let ?hf = "\<lambda>a. height (heap s a)"
  note cs = Br.prems(1) and sh = Br.prems(2) and dj = Br.prems(3)
  have o: "ordered ?val l" "ordered ?val r" "\<forall>x \<in> addrs l. ?val x < ?val n"
    "\<forall>x \<in> addrs r. ?val n < ?val x"
    using Br.prems(4) by (simp_all add: ordered_Br)
  have hb: "hts_ok ?hf l" "hts_ok ?hf r" "balanced l" "balanced r" "\<bar>ht l - ht r\<bar> \<le> 1"
    using Br.prems(5,6) by simp_all
  have lk: "left (heap s n) = ptr l" "right (heap s n) = ptr r" "parent (heap s n) = cpar c"
    using sh by simp_all
  have nl: "n \<notin> addrs l" "n \<notin> addrs r" "addrs l \<inter> addrs r = {}" using sh by auto
  have vl: "map ?val (inorder_refs (Br l n r)) = map ?val (inorder_refs l) @ ?val n # map ?val (inorder_refs r)"
    by simp
  consider (lt) "v < ?val n" | (gt) "?val n < v" | (eq) "v = ?val n" by fastforce
  then show ?case
  proof cases
    case lt
    have mem: "v \<in> ?val ` addrs l" using Br.prems(7) lt o(4) by auto
    let ?c1 = "(Lft, n, r) # c"
    have cs1: "cshaped (\<lambda>p. p) (heap s) (root s) ?c1 (ptr l)" using cs sh dj by auto
    have sh1: "shaped (\<lambda>p. p) (heap s) (cpar ?c1) l" using sh by simp
    have dj1: "addrs l \<inter> caddrs ?c1 = {}" using sh dj by auto
    from Br.IH(1) [OF cs1 sh1 dj1 o(1) hb(1,3) mem]
    obtain s1 l' where r1: "avl_delete_node s (ptr l) v = Some (s1, ptr l')"
      "del_post s ?c1 l s1 l'"
      "map (\<lambda>a. value (heap s1 a)) (inorder_refs l') = filter (\<lambda>x. x \<noteq> v) (map ?val (inorder_refs l))"
      "addrs l' = addrs l - {victim ?val v l}"
      "\<forall>p \<in> addrs l'. value (heap s1 p) =
         (if ?val p = v then ?val (victim ?val v l) else ?val p)"
      by blast
    from avl_delete_up_left [OF sh dj r1(2) hb(2,4,5)]
    obtain s' n' t' where r2: "avl_rebalance (relink_left s1 n (ptr l')) n True = Some (s', n')"
      "ptr t' = Some n'" "del_post s c (Br l n r) s' t'"
      "inorder_refs t' = inorder_refs l' @ n # inorder_refs r"
      "\<forall>p. value (heap s' p) = value (heap s1 p)"
      by blast
    have e: "avl_delete_node s (ptr (Br l n r)) v = Some (s', ptr t')"
      using lt lk r1(1) r2(1,2) by (simp add: avl_delete_node_unfold)
    have v1: "value (heap s1 p) = ?val p" if "p \<notin> addrs l" for p
      using r1(2) that by (simp add: del_post_def)
    have "map (\<lambda>a. value (heap s' a)) (inorder_refs t') =
        map (\<lambda>a. value (heap s1 a)) (inorder_refs l') @ ?val n # map ?val (inorder_refs r)"
      using r2(4,5) v1 nl by auto
    also have "\<dots> = filter (\<lambda>x. x \<noteq> v) (map ?val (inorder_refs l)) @ (?val n # map ?val (inorder_refs r))"
      using r1(3) by simp
    also have "\<dots> = filter (\<lambda>x. x \<noteq> v) (map ?val (inorder_refs l) @ (?val n # map ?val (inorder_refs r)))"
      by (rule filter_sorted_lt [symmetric]) (use lt o(4) in auto)
    finally have le: "map (\<lambda>a. value (heap s' a)) (inorder_refs t') =
        filter (\<lambda>x. x \<noteq> v) (map ?val (inorder_refs (Br l n r)))"
      unfolding vl .
    have vt: "victim ?val v (Br l n r) = victim ?val v l" using lt by simp
    have vin: "victim ?val v l \<in> addrs l" by (rule victim_in [OF mem o(1)])
    have ad: "addrs t' = addrs (Br l n r) - {victim ?val v (Br l n r)}"
      unfolding vt using addrs_inorder [OF r2(4) [folded inorder_refs.simps(2)]] r1(4) vin nl by auto
    have vv: "value (heap s' p) =
        (if ?val p = v then ?val (victim ?val v (Br l n r)) else ?val p)" if "p \<in> addrs t'" for p
    proof -
      have "p \<in> addrs l' \<or> p = n \<or> p \<in> addrs r"
        using that addrs_inorder [OF r2(4) [folded inorder_refs.simps(2)]] by auto
      then show ?thesis
      proof (elim disjE)
        assume "p \<in> addrs l'"
        then show ?thesis using r1(5) r2(5) vt by simp
      next
        assume "p = n"
        moreover have "?val n \<noteq> v" using lt by auto
        ultimately show ?thesis using r2(5) v1 [of n] nl by simp
      next
        assume a: "p \<in> addrs r"
        then have "p \<notin> addrs l" "?val p \<noteq> v" using nl o(4) lt by auto
        then show ?thesis using r2(5) v1 [of p] by simp
      qed
    qed
    show ?thesis using e r2(3) le ad vv by blast
  next
    case gt
    have mem: "v \<in> ?val ` addrs r" using Br.prems(7) gt o(3) by auto
    let ?c1 = "(Rgt, n, l) # c"
    have cs1: "cshaped (\<lambda>p. p) (heap s) (root s) ?c1 (ptr r)" using cs sh dj by auto
    have sh1: "shaped (\<lambda>p. p) (heap s) (cpar ?c1) r" using sh by simp
    have dj1: "addrs r \<inter> caddrs ?c1 = {}" using sh dj by auto
    from Br.IH(2) [OF cs1 sh1 dj1 o(2) hb(2,4) mem]
    obtain s1 r' where r1: "avl_delete_node s (ptr r) v = Some (s1, ptr r')"
      "del_post s ?c1 r s1 r'"
      "map (\<lambda>a. value (heap s1 a)) (inorder_refs r') = filter (\<lambda>x. x \<noteq> v) (map ?val (inorder_refs r))"
      "addrs r' = addrs r - {victim ?val v r}"
      "\<forall>p \<in> addrs r'. value (heap s1 p) =
         (if ?val p = v then ?val (victim ?val v r) else ?val p)"
      by blast
    from avl_delete_up_right [OF sh dj r1(2) hb(1,3,5)]
    obtain s' n' t' where r2: "avl_rebalance (relink_right s1 n (ptr r')) n True = Some (s', n')"
      "ptr t' = Some n'" "del_post s c (Br l n r) s' t'"
      "inorder_refs t' = inorder_refs l @ n # inorder_refs r'"
      "\<forall>p. value (heap s' p) = value (heap s1 p)"
      by blast
    have ng: "\<not> v < ?val n" using gt by simp
    have e: "avl_delete_node s (ptr (Br l n r)) v = Some (s', ptr t')"
      using gt ng lk r1(1) r2(1,2) by (simp add: avl_delete_node_unfold)
    have v1: "value (heap s1 p) = ?val p" if "p \<notin> addrs r" for p
      using r1(2) that by (simp add: del_post_def)
    have "map (\<lambda>a. value (heap s' a)) (inorder_refs t') =
        (map ?val (inorder_refs l) @ [?val n]) @ map (\<lambda>a. value (heap s1 a)) (inorder_refs r')"
      using r2(4,5) v1 nl by auto
    also have "\<dots> = (map ?val (inorder_refs l) @ [?val n]) @ filter (\<lambda>x. x \<noteq> v) (map ?val (inorder_refs r))"
      using r1(3) by simp
    also have "\<dots> = filter (\<lambda>x. x \<noteq> v) ((map ?val (inorder_refs l) @ [?val n]) @ map ?val (inorder_refs r))"
      by (rule filter_sorted_gt [symmetric]) (use gt o(3) in auto)
    finally have le: "map (\<lambda>a. value (heap s' a)) (inorder_refs t') =
        filter (\<lambda>x. x \<noteq> v) (map ?val (inorder_refs (Br l n r)))"
      unfolding vl by simp
    have vt: "victim ?val v (Br l n r) = victim ?val v r" using gt ng by simp
    have vin: "victim ?val v r \<in> addrs r" by (rule victim_in [OF mem o(2)])
    have ad: "addrs t' = addrs (Br l n r) - {victim ?val v (Br l n r)}"
      unfolding vt using addrs_inorder [OF r2(4) [folded inorder_refs.simps(2)]] r1(4) vin nl by auto
    have vv: "value (heap s' p) =
        (if ?val p = v then ?val (victim ?val v (Br l n r)) else ?val p)" if "p \<in> addrs t'" for p
    proof -
      have "p \<in> addrs r' \<or> p = n \<or> p \<in> addrs l"
        using that addrs_inorder [OF r2(4) [folded inorder_refs.simps(2)]] by auto
      then show ?thesis
      proof (elim disjE)
        assume "p \<in> addrs r'"
        then show ?thesis using r1(5) r2(5) vt by simp
      next
        assume "p = n"
        moreover have "?val n \<noteq> v" using gt by auto
        ultimately show ?thesis using r2(5) v1 [of n] nl by simp
      next
        assume a: "p \<in> addrs l"
        then have "p \<notin> addrs r" "?val p \<noteq> v" using nl o(3) gt by auto
        then show ?thesis using r2(5) v1 [of p] by simp
      qed
    qed
    show ?thesis using e r2(3) le ad vv by blast
  next
    case eq
    have "filter (\<lambda>x. x \<noteq> v) (map ?val (inorder_refs l)) = map ?val (inorder_refs l)"
      "filter (\<lambda>x. x \<noteq> v) (map ?val (inorder_refs r)) = map ?val (inorder_refs r)"
      unfolding filter_id_conv using eq o(3,4) by auto
    then have fl: "filter (\<lambda>x. x \<noteq> v) (map ?val (inorder_refs (Br l n r))) =
        map ?val (inorder_refs l) @ map ?val (inorder_refs r)"
      using eq by simp
    show ?thesis
    proof (cases "l = Tip \<or> r = Tip")
      case True
      define t' where "t' = (if l \<noteq> Tip then l else r)"
      define s' where "s' = (case ptr t' of None \<Rightarrow> s
          | Some c' \<Rightarrow> s\<lparr>heap := set_parent (heap s) c' (parent (heap s n))\<rparr>)"
      have e: "avl_delete_node s (ptr (Br l n r)) v = Some (s', ptr t')"
        using eq lk True unfolding s'_def t'_def
        by (auto simp: avl_delete_node_unfold Let_def)
      have sub: "addrs t' \<subseteq> addrs (Br l n r)" "n \<notin> addrs t'" "addrs t' \<inter> caddrs c = {}"
        using nl dj by (auto simp: t'_def)
      have sht: "shaped (\<lambda>p. p) (heap s) (Some n) t'" using sh by (simp add: t'_def)
      have hp: "heap s' = (case ptr t' of None \<Rightarrow> heap s | Some c' \<Rightarrow> set_parent (heap s) c' (cpar c))"
        and st: "root s' = root s" "next_ref s' = next_ref s" "guard_hits s' = guard_hits s"
        "rotations_insert s' = rotations_insert s" "rotations_delete s' = rotations_delete s"
        by (simp_all add: s'_def lk(3) split: option.splits)
      have dat: "value (heap s' p) = ?val p" "height (heap s' p) = ?hf p" for p
        by (simp_all add: hp split: option.splits)
      have sh': "shaped (\<lambda>p. p) (heap s') (cpar c) t'"
      proof (rule shaped_reparent [OF sht])
        show "same_links (heap s) (heap s') a" if "a \<in> addrs t'" "ptr t' \<noteq> Some a" for a
          using that by (auto simp: hp same_links_def split: option.splits)
        show "parent (heap s' a) = cpar c \<and> left (heap s' a) = left (heap s a) \<and> right (heap s' a) = right (heap s a)"
          if "ptr t' = Some a" for a
          using that by (simp add: hp)
      qed
      have cs': "cshaped (\<lambda>p. p) (heap s') (root s') c (Some n)"
      proof -
        have "cshaped (\<lambda>p. p) (heap s') (root s) c (Some n) = cshaped (\<lambda>p. p) (heap s) (root s) c (Some n)"
          by (rule cshaped_cong) (use sub ptr_in_addrs [of t'] in \<open>auto simp: hp split: option.splits\<close>)
        then show ?thesis using cs st by simp
      qed
      have hh: "ht t' \<le> ht (Br l n r)" "ht (Br l n r) \<le> ht t' + 1"
        using True by (auto simp: t'_def)
      have "del_post s c (Br l n r) s' t'"
        unfolding del_post_def using cs' sh' sub hb hh st dat
        by (auto simp: counted_def t'_def)
      moreover have "map (\<lambda>a. value (heap s' a)) (inorder_refs t') =
          filter (\<lambda>x. x \<noteq> v) (map ?val (inorder_refs (Br l n r)))"
        unfolding fl using True by (auto simp: dat t'_def)
      moreover have "victim ?val v (Br l n r) = n" using eq True by simp
      then have "addrs t' = addrs (Br l n r) - {victim ?val v (Br l n r)}"
        using True nl by (auto simp: t'_def)
      moreover have "\<forall>p \<in> addrs t'. value (heap s' p) =
          (if ?val p = v then ?val (victim ?val v (Br l n r)) else ?val p)"
        using o(3,4) eq by (auto simp: dat t'_def)
      ultimately show ?thesis using e by blast
    next
      case False
      then obtain rl m0 rr where r: "r = Br rl m0 rr" by (cases r) auto
      have lne: "ptr l \<noteq> None" "ptr r \<noteq> None" using False by auto
      define m where "m = hd (inorder_refs r)"
      have mr: "m \<in> addrs r"
        unfolding m_def set_inorder_refs [symmetric] by (rule hd_in_set) (simp add: r)
      have lm: "avl_leftmost (heap s) m0 = Some m"
        using avl_leftmost_correct [of "heap s" "Some n" rl m0 rr] sh r by (simp add: m_def)
      define vs where "vs = ?val m"
      define s0 where "s0 = s\<lparr>heap := set_value (heap s) n vs\<rparr>"
      have v0: "value (heap s0 p) = (if p = n then vs else ?val p)"
        and h0: "height (heap s0 p) = ?hf p" for p
        by (simp_all add: s0_def)
      let ?c1 = "(Rgt, n, l) # c"
      have cs1: "cshaped (\<lambda>p. p) (heap s0) (root s0) ?c1 (ptr r)" using cs sh dj by (auto simp: s0_def)
      have sh1: "shaped (\<lambda>p. p) (heap s0) (cpar ?c1) r" using sh by (simp add: s0_def)
      have dj1: "addrs r \<inter> caddrs ?c1 = {}" using sh dj by auto
      have o1: "ordered (\<lambda>a. value (heap s0 a)) r"
      proof -
        have "ordered (\<lambda>a. value (heap s0 a)) r = ordered ?val r"
          by (rule ordered_cong) (use nl in \<open>auto simp: v0\<close>)
        then show ?thesis using o(2) by simp
      qed
      have mem: "vs \<in> (\<lambda>a. value (heap s0 a)) ` addrs r"
        using mr nl by (auto simp: v0 vs_def)
      have hr0: "hts_ok (\<lambda>a. height (heap s0 a)) r" "hts_ok (\<lambda>a. height (heap s0 a)) l"
        using hb by (simp_all add: h0)
      from Br.IH(2) [OF cs1 sh1 dj1 o1 hr0(1) hb(4) mem]
      obtain s1 r' where r1: "avl_delete_node s0 (ptr r) vs = Some (s1, ptr r')"
        "del_post s0 ?c1 r s1 r'"
        "map (\<lambda>a. value (heap s1 a)) (inorder_refs r') =
           filter (\<lambda>x. x \<noteq> vs) (map (\<lambda>a. value (heap s0 a)) (inorder_refs r))"
        "addrs r' = addrs r - {victim (\<lambda>a. value (heap s0 a)) vs r}"
        "\<forall>p \<in> addrs r'. value (heap s1 p) =
           (if value (heap s0 p) = vs then value (heap s0 (victim (\<lambda>a. value (heap s0 a)) vs r))
            else value (heap s0 p))"
        by blast
      have sh0: "shaped (\<lambda>p. p) (heap s0) (cpar c) (Br l n r)" using sh by (simp add: s0_def)
      from avl_delete_up_right [OF sh0 dj r1(2) hr0(2) hb(3,5)]
      obtain s' n' t' where r2: "avl_rebalance (relink_right s1 n (ptr r')) n True = Some (s', n')"
        "ptr t' = Some n'" "del_post s0 c (Br l n r) s' t'"
        "inorder_refs t' = inorder_refs l @ n # inorder_refs r'"
        "\<forall>p. value (heap s' p) = value (heap s1 p)"
        by blast
      have pr: "ptr r = Some m0" using r by simp
      have vm: "value (heap s0 m) = vs" by (simp add: v0 vs_def)
      have "avl_delete_node s (Some n) v = Some (s', ptr t')"
        by (subst avl_delete_node_unfold)
          (use eq lk lne lm pr r1(1) r2(1,2) vm in
            \<open>simp add: Let_def s0_def [symmetric] vs_def [symmetric]\<close>)
      then have e: "avl_delete_node s (ptr (Br l n r)) v = Some (s', ptr t')" by simp
      have dp: "del_post s c (Br l n r) s' t'"
        by (rule del_post_values [OF r2(3)]) (simp_all add: v0 h0, simp_all add: s0_def)
      have v1: "value (heap s1 p) = value (heap s0 p)" if "p \<notin> addrs r" for p
        using r1(2) that by (simp add: del_post_def)
      have vr: "map (\<lambda>a. value (heap s0 a)) (inorder_refs r) = map ?val (inorder_refs r)"
        using nl by (auto simp: v0)
      have "inorder_refs r \<noteq> []" by (simp add: r)
      then have hdv: "vs = hd (map ?val (inorder_refs r))"
        unfolding vs_def m_def by (rule hd_map [symmetric])
      have vl1: "value (heap s1 x) = ?val x" if "x \<in> addrs l" for x
      proof -
        have "x \<notin> addrs r" "x \<noteq> n" using that nl by auto
        then show ?thesis using v1 [of x] by (simp add: v0)
      qed
      have vn1: "value (heap s1 n) = vs" using v1 [of n] nl by (simp add: v0)
      have "map (\<lambda>a. value (heap s' a)) (inorder_refs t') =
          map ?val (inorder_refs l) @ vs # map (\<lambda>a. value (heap s1 a)) (inorder_refs r')"
        using r2(4,5) vl1 vn1 by simp
      also have "\<dots> = map ?val (inorder_refs l) @ vs # filter (\<lambda>x. x \<noteq> vs) (map ?val (inorder_refs r))"
        using r1(3) vr by simp
      also have "vs # filter (\<lambda>x. x \<noteq> vs) (map ?val (inorder_refs r)) = map ?val (inorder_refs r)"
        unfolding hdv by (rule hd_filter_sorted) (use o(2) r in \<open>auto simp: ordered_def\<close>)
      finally have le: "map (\<lambda>a. value (heap s' a)) (inorder_refs t') =
          filter (\<lambda>x. x \<noteq> v) (map ?val (inorder_refs (Br l n r)))"
        unfolding fl .
      have vt: "victim ?val v (Br l n r) = m" using eq False by (simp add: m_def)
      have "victim (\<lambda>a. value (heap s0 a)) vs r = victim ?val vs r"
        by (rule victim_cong) (use nl in \<open>auto simp: v0\<close>)
      also have "\<dots> = m"
        unfolding vs_def m_def by (rule victim_leftmost [OF o(2)]) (simp add: r)
      finally have vr0: "victim (\<lambda>a. value (heap s0 a)) vs r = m" .
      have ad: "addrs t' = addrs (Br l n r) - {victim ?val v (Br l n r)}"
        unfolding vt using addrs_inorder [OF r2(4) [folded inorder_refs.simps(2)]] r1(4) vr0 mr nl
        by auto
      have inj: "inj_on ?val (addrs r)" by (rule ordered_inj [OF o(2)])
      have vv: "value (heap s' p) =
          (if ?val p = v then ?val (victim ?val v (Br l n r)) else ?val p)" if "p \<in> addrs t'" for p
      proof -
        have "p \<in> addrs r' \<or> p = n \<or> p \<in> addrs l"
          using that addrs_inorder [OF r2(4) [folded inorder_refs.simps(2)]] by auto
        then show ?thesis
        proof (elim disjE)
          assume a: "p \<in> addrs r'"
          then have pr: "p \<in> addrs r" "p \<noteq> m" using r1(4) vr0 by auto
          then have "?val p \<noteq> vs" using inj mr by (auto simp: vs_def inj_on_def)
          moreover have "p \<noteq> n" "?val p \<noteq> v" using pr nl o(4) eq by auto
          ultimately show ?thesis using r1(5) r2(5) a by (simp add: v0)
        next
          assume "p = n"
          then show ?thesis using r2(5) vn1 eq vt by (simp add: vs_def)
        next
          assume a: "p \<in> addrs l"
          then have "?val p \<noteq> v" using o(3) eq by auto
          then show ?thesis using r2(5) vl1 [OF a] by simp
        qed
      qed
      show ?thesis using e dp le ad vv by blast
    qed
  qed
qed

lemma avl_delete_correct:
  fixes s :: "('a::linorder) avl_tree"
  assumes inv: "avl_abs s t"
  shows "\<exists>s' t' b. avl_delete s v = Some (s', b) \<and> avl_abs s' t' \<and>
           keys_of (heap s') t' = keys_of (heap s) t - {v} \<and>
           (b \<longleftrightarrow> v \<in> keys_of (heap s) t) \<and> (\<not> b \<longrightarrow> s' = s) \<and>
           counted True s s' \<and> guard_hits s' = guard_hits s \<and>
           (b \<longrightarrow> addrs t' = addrs t - {victim (\<lambda>a. value (heap s a)) v t} \<and>
              victim (\<lambda>a. value (heap s a)) v t \<in> addrs t \<and>
              (\<forall>p \<in> addrs t'. value (heap s' p) =
                 (if value (heap s p) = v then value (heap s (victim (\<lambda>a. value (heap s a)) v t))
                  else value (heap s p))))"
proof -
  let ?val = "\<lambda>a. value (heap s a)"
  have rt: "root s = ptr t" and sh: "shaped (\<lambda>p. p) (heap s) None t"
    and fresh: "addrs t \<subseteq> {..<next_ref s}" and ord: "ordered ?val t"
    and ho: "hts_ok (\<lambda>a. height (heap s a)) t" "balanced t"
    using inv by (simp_all add: avl_abs_def)
  obtain c t1 where d: "descend ?val v t [] = (c, t1)" by (cases "descend ?val v t []")
  have mem: "v \<in> keys_of (heap s) t \<longleftrightarrow> t1 \<noteq> Tip"
    unfolding keys_of_def by (rule keys_of_plug_found [OF d ord])
  have ct: "avl_contains s v = Some (t1 \<noteq> Tip)"
    using avl_contains_loop_descend [OF sh, of v "[]"] d rt
    by (cases t1) (simp_all add: avl_contains_def)
  show ?thesis
  proof (cases "t1 = Tip")
    case True
    have "avl_delete s v = Some (s, False)"
      using ct True by (simp add: avl_delete_def)
    then show ?thesis using inv mem True
      by (intro exI [of _ s] exI [of _ t] exI [of _ False]) auto
  next
    case False
    have m: "v \<in> ?val ` addrs t" using mem False by (simp add: keys_of_def)
    have cs: "cshaped (\<lambda>p. p) (heap s) (root s) [] (ptr t)" using rt by simp
    from avl_delete_node_correct [OF cs _ _ ord ho m] sh
    obtain s1 t' where r: "avl_delete_node s (ptr t) v = Some (s1, ptr t')"
      "del_post s [] t s1 t'"
      "map (\<lambda>a. value (heap s1 a)) (inorder_refs t') = filter (\<lambda>x. x \<noteq> v) (map ?val (inorder_refs t))"
      "addrs t' = addrs t - {victim ?val v t}"
      "\<forall>p \<in> addrs t'. value (heap s1 p) =
         (if ?val p = v then ?val (victim ?val v t) else ?val p)"
      by auto
    note p = r(2) [unfolded del_post_def]
    define s' where "s' = s1\<lparr>root := ptr t'\<rparr>"
    have sh1: "shaped (\<lambda>p. p) (heap s1) None t'" using p by simp
    have fin: "(case ptr t' of None \<Rightarrow> s' | Some c \<Rightarrow> s'\<lparr>heap := set_parent (heap s') c None\<rparr>) = s'"
      using sh1 by (cases t') (simp_all add: s'_def set_parent_same)
    have e: "avl_delete s v = Some (s', True)"
      using ct False r(1) rt fin [unfolded s'_def] by (simp add: avl_delete_def s'_def Let_def)
    have o': "ordered (\<lambda>a. value (heap s' a)) t'"
      unfolding ordered_def using r(3) ord
      by (simp add: s'_def ordered_def sorted_wrt_filter)
    have "avl_abs s' t'"
      unfolding avl_abs_def using sh1 p o' fresh by (auto simp: s'_def)
    moreover have "keys_of (heap s') t' = keys_of (heap s) t - {v}"
    proof -
      have "set (map (\<lambda>a. value (heap s1 a)) (inorder_refs t')) =
          set (filter (\<lambda>x. x \<noteq> v) (map ?val (inorder_refs t)))"
        using r(3) by simp
      then show ?thesis by (auto simp: keys_of_def s'_def)
    qed
    moreover have "counted True s s'" "guard_hits s' = guard_hits s"
      using p by (simp_all add: s'_def counted_def)
    moreover have "victim ?val v t \<in> addrs t" by (rule victim_in [OF m ord])
    moreover have "\<forall>p \<in> addrs t'. value (heap s' p) =
         (if ?val p = v then ?val (victim ?val v t) else ?val p)"
      using r(5) by (simp add: s'_def)
    ultimately show ?thesis using e mem False r(4)
      by (intro exI [of _ s'] exI [of _ t'] exI [of _ True]) simp
  qed
qed

section \<open>The nodes of a tree in the store\<close>

inductive_set nodes :: "(nat \<Rightarrow> ('v, nat option, 'm) node_scheme) \<Rightarrow> nat option \<Rightarrow> nat set"
  for h :: "nat \<Rightarrow> ('v, nat option, 'm) node_scheme" and rt :: "nat option" where
  root: "rt = Some a \<Longrightarrow> a \<in> nodes h rt"
| left: "a \<in> nodes h rt \<Longrightarrow> left (h a) = Some b \<Longrightarrow> b \<in> nodes h rt"
| right: "a \<in> nodes h rt \<Longrightarrow> right (h a) = Some b \<Longrightarrow> b \<in> nodes h rt"

lemma shaped_closed:
  "shaped (\<lambda>p. p) h par t \<Longrightarrow> a \<in> addrs t \<Longrightarrow>
   left (h a) = Some b \<or> right (h a) = Some b \<Longrightarrow> b \<in> addrs t"
proof (induction t arbitrary: par)
  case Tip
  then show ?case by simp
next
  case (Br l x r)
  show ?case
  proof (cases "a = x")
    case True
    then show ?thesis using Br.prems ptr_in_addrs [of l b] ptr_in_addrs [of r b] by auto
  next
    case False
    then consider "a \<in> addrs l" | "a \<in> addrs r" using Br.prems by auto
    then show ?thesis
    proof cases
      case 1
      then show ?thesis using Br.IH(1) [of "Some x"] Br.prems by auto
    next
      case 2
      then show ?thesis using Br.IH(2) [of "Some x"] Br.prems by auto
    qed
  qed
qed

lemma nodes_subset:
  assumes "shaped (\<lambda>p. p) h par t"
  shows "nodes h (ptr t) \<subseteq> addrs t"
proof
  fix a assume "a \<in> nodes h (ptr t)"
  then show "a \<in> addrs t"
  proof induction
    case (root a)
    then show ?case by (simp add: ptr_in_addrs)
  next
    case (left a b)
    then show ?case using shaped_closed [OF assms] by blast
  next
    case (right a b)
    then show ?case using shaped_closed [OF assms] by blast
  qed
qed

lemma nodes_trans: "b \<in> nodes h (Some a) \<Longrightarrow> a \<in> nodes h rt \<Longrightarrow> b \<in> nodes h rt"
  by (induction rule: nodes.induct) (auto intro: nodes.intros)

lemma nodes_supset:
  "shaped (\<lambda>p. p) h par t \<Longrightarrow> addrs t \<subseteq> nodes h (ptr t)"
proof (induction t arbitrary: par)
  case Tip
  show ?case by simp
next
  case (Br l x r)
  have x: "x \<in> nodes h (Some x)" by (rule nodes.root) simp
  have "addrs l \<subseteq> nodes h (Some x)"
  proof
    fix b assume b: "b \<in> addrs l"
    then obtain l1 y l2 where l: "l = Br l1 y l2" by (cases l) auto
    have "b \<in> nodes h (Some y)" using Br.IH(1) [of "Some x"] Br.prems b l by auto
    moreover have "y \<in> nodes h (Some x)"
      by (rule nodes.left [OF x]) (use Br.prems l in simp)
    ultimately show "b \<in> nodes h (Some x)" by (rule nodes_trans)
  qed
  moreover have "addrs r \<subseteq> nodes h (Some x)"
  proof
    fix b assume b: "b \<in> addrs r"
    then obtain l1 y l2 where l: "r = Br l1 y l2" by (cases r) auto
    have "b \<in> nodes h (Some y)" using Br.IH(2) [of "Some x"] Br.prems b l by auto
    moreover have "y \<in> nodes h (Some x)"
      by (rule nodes.right [OF x]) (use Br.prems l in simp)
    ultimately show "b \<in> nodes h (Some x)" by (rule nodes_trans)
  qed
  ultimately show ?case using x by simp
qed

lemma nodes_shaped: "shaped (\<lambda>p. p) h par t \<Longrightarrow> nodes h (ptr t) = addrs t"
  using nodes_subset nodes_supset by blast

lemma inorder_values_shaped:
  "shaped (\<lambda>p. p) h par t \<Longrightarrow>
   inorder_values h (ptr t) = Some (map (\<lambda>a. value (h a)) (inorder_refs t))"
proof (induction t arbitrary: par)
  case Tip
  show ?case by (subst inorder_values.simps) simp
next
  case (Br l a r)
  have "inorder_values h (ptr l) = Some (map (\<lambda>a. value (h a)) (inorder_refs l))"
    "inorder_values h (ptr r) = Some (map (\<lambda>a. value (h a)) (inorder_refs r))"
    using Br.IH(1) [of "Some a"] Br.IH(2) [of "Some a"] Br.prems by simp_all
  then show ?case using Br.prems by (subst inorder_values.simps) simp
qed

section \<open>Reachable states\<close>

inductive treap_reachable :: "('a::linorder) treap \<Rightarrow> bool" where
  init: "treap_reachable (treap_empty mp)"
| insert: "treap_reachable s \<Longrightarrow> treap_insert s v prio = Some (s', b) \<Longrightarrow> treap_reachable s'"
| delete: "treap_reachable s \<Longrightarrow> treap_delete s v = Some (s', b) \<Longrightarrow> treap_reachable s'"
| reset: "treap_reachable s \<Longrightarrow> treap_reachable (reset_metrics s)"

inductive avl_reachable :: "('a::linorder) avl_tree \<Rightarrow> bool" where
  init: "avl_reachable avl_empty"
| insert: "avl_reachable s \<Longrightarrow> avl_insert s v = Some (s', b) \<Longrightarrow> avl_reachable s'"
| delete: "avl_reachable s \<Longrightarrow> avl_delete s v = Some (s', b) \<Longrightarrow> avl_reachable s'"
| reset: "avl_reachable s \<Longrightarrow> avl_reachable (reset_metrics s)"

lemma reset_metrics_fields [simp]:
  "heap (reset_metrics s) = heap s" "root (reset_metrics s) = root s"
  "next_ref (reset_metrics s) = next_ref s" "guard_hits (reset_metrics s) = guard_hits s"
  "rotations_insert (reset_metrics s) = 0" "rotations_delete (reset_metrics s) = 0"
  by (simp_all add: reset_metrics_def)

lemma treap_abs_reset [simp]: "treap_abs (reset_metrics s) t = treap_abs s t"
  by (simp add: treap_abs_def)

lemma avl_abs_reset [simp]: "avl_abs (reset_metrics s) t = avl_abs s t"
  by (simp add: avl_abs_def)

lemma treap_abs_empty: "treap_abs (treap_empty mp) Tip"
  by (simp add: treap_abs_def treap_empty_def)

lemma avl_abs_empty: "avl_abs avl_empty Tip"
  by (simp add: avl_abs_def avl_empty_def)

lemma treap_reachable_abs: "treap_reachable s \<Longrightarrow> (\<exists>t. treap_abs s t) \<and> guard_hits s = 0"
proof (induction rule: treap_reachable.induct)
  case (init mp)
  show ?case using treap_abs_empty [of mp] by (auto simp: treap_empty_def)
next
  case (insert s v prio s' b)
  then obtain t where "treap_abs s t" by blast
  from treap_insert_correct [OF this, of v prio] insert show ?case by auto
next
  case (delete s v s' b)
  then obtain t where "treap_abs s t" by blast
  from treap_delete_correct [OF this, of v] delete show ?case by auto
next
  case (reset s)
  then show ?case by simp
qed

lemma avl_reachable_abs: "avl_reachable s \<Longrightarrow> (\<exists>t. avl_abs s t) \<and> guard_hits s = 0"
proof (induction rule: avl_reachable.induct)
  case init
  show ?case using avl_abs_empty by (auto simp: avl_empty_def)
next
  case (insert s v s' b)
  then obtain t where "avl_abs s t" by blast
  from avl_insert_correct [OF this, of v] insert show ?case by auto
next
  case (delete s v s' b)
  then obtain t where "avl_abs s t" by blast
  from avl_delete_correct [OF this, of v] delete show ?case by auto
next
  case (reset s)
  then show ?case by simp
qed

section \<open>The invariants, stated on the store\<close>

definition treap_heap_inv :: "'a treap \<Rightarrow> bool" where
  "treap_heap_inv s \<longleftrightarrow>
     (\<forall>n \<in> nodes (heap s) (root s). \<forall>c.
        left (heap s n) = Some c \<or> right (heap s n) = Some c \<longrightarrow>
        priority (heap s c) \<le> priority (heap s n) \<and> parent (heap s c) = Some n)"

definition avl_inv :: "'a avl_tree \<Rightarrow> bool" where
  "avl_inv s \<longleftrightarrow>
     (\<forall>n \<in> nodes (heap s) (root s).
        height (heap s n) =
          1 + max (get_height (heap s) (left (heap s n))) (get_height (heap s) (right (heap s n))) \<and>
        get_balance (heap s) (Some n) \<in> {-1, 0, 1})"

lemma heap_ordered_node:
  "shaped (\<lambda>p. p) h par t \<Longrightarrow> heap_ordered (\<lambda>a. priority (h a)) t \<Longrightarrow> a \<in> addrs t \<Longrightarrow>
   left (h a) = Some c \<or> right (h a) = Some c \<Longrightarrow>
   priority (h c) \<le> priority (h a) \<and> parent (h c) = Some a"
proof (induction t arbitrary: par)
  case Tip
  then show ?case by simp
next
  case (Br l x r)
  show ?case
  proof (cases "a = x")
    case True
    have "priority (h c) \<le> priority (h x) \<and> parent (h c) = Some x" if "ptr u = Some c"
      "shaped (\<lambda>p. p) h (Some x) u" "prio_le (\<lambda>a. priority (h a)) u (priority (h x))" for u
      using that by (cases u) auto
    then show ?thesis using True Br.prems by auto
  next
    case False
    then consider "a \<in> addrs l" | "a \<in> addrs r" using Br.prems by auto
    then show ?thesis
    proof cases
      case 1
      then show ?thesis using Br.IH(1) [of "Some x"] Br.prems by auto
    next
      case 2
      then show ?thesis using Br.IH(2) [of "Some x"] Br.prems by auto
    qed
  qed
qed

lemma treap_abs_heap_inv: "treap_abs s t \<Longrightarrow> treap_heap_inv s"
  unfolding treap_heap_inv_def treap_abs_def
  using heap_ordered_node [of "heap s" None t] nodes_subset [of "heap s" None t] by auto

lemma avl_node:
  "shaped (\<lambda>p. p) h par t \<Longrightarrow> hts_ok (\<lambda>a. height (h a)) t \<Longrightarrow> balanced t \<Longrightarrow> a \<in> addrs t \<Longrightarrow>
   height (h a) = 1 + max (get_height h (left (h a))) (get_height h (right (h a))) \<and>
   get_balance h (Some a) \<in> {-1, 0, 1}"
proof (induction t arbitrary: par)
  case Tip
  then show ?case by simp
next
  case (Br l x r)
  show ?case
  proof (cases "a = x")
    case True
    have g: "get_height h (left (h x)) = ht l" "get_height h (right (h x)) = ht r"
      using Br.prems get_height_ptr [of h l] get_height_ptr [of h r] by auto
    have "\<bar>ht l - ht r\<bar> \<le> 1" "height (h x) = 1 + max (ht l) (ht r)" using Br.prems by auto
    then show ?thesis unfolding True get_balance_def option.case g by auto
  next
    case False
    then consider "a \<in> addrs l" | "a \<in> addrs r" using Br.prems by auto
    then show ?thesis
    proof cases
      case 1
      then show ?thesis using Br.IH(1) [of "Some x"] Br.prems by auto
    next
      case 2
      then show ?thesis using Br.IH(2) [of "Some x"] Br.prems by auto
    qed
  qed
qed

lemma avl_abs_inv:
  assumes "avl_abs s t"
  shows "avl_inv s"
  unfolding avl_inv_def
proof
  fix n assume "n \<in> nodes (heap s) (root s)"
  then have "n \<in> addrs t"
    using nodes_subset [of "heap s" None t] assms by (auto simp: avl_abs_def)
  then show "height (heap s n) =
      1 + max (get_height (heap s) (left (heap s n))) (get_height (heap s) (right (heap s n))) \<and>
      get_balance (heap s) (Some n) \<in> {-1, 0, 1}"
    using avl_node [of "heap s" None t n] assms by (simp add: avl_abs_def)
qed

section \<open>Lookups\<close>

lemma treap_contains_loop_descend:
  "shaped (\<lambda>p. p) h par t \<Longrightarrow>
   treap_contains_loop h (ptr t) v =
     Some (case descend (\<lambda>a. value (h a)) v t c of (c', Tip) \<Rightarrow> False | (c', Br _ _ _) \<Rightarrow> True)"
proof (induction t arbitrary: par c)
  case Tip
  then show ?case by (subst treap_contains_loop.simps) simp
next
  case (Br l a r)
  show ?case
  proof (cases "v = value (h a)")
    case True
    then show ?thesis by (subst treap_contains_loop.simps) simp
  next
    case False
    show ?thesis
    proof (cases "v < value (h a)")
      case True
      from Br.IH(1) [of "Some a" "(Lft, a, r) # c"] Br.prems False True
      show ?thesis by (subst treap_contains_loop.simps) simp
    next
      case ge: False
      from Br.IH(2) [of "Some a" "(Rgt, a, l) # c"] Br.prems False ge
      show ?thesis by (subst treap_contains_loop.simps) simp
    qed
  qed
qed

lemma treap_contains_correct:
  assumes "treap_abs s t"
  shows "treap_contains s v = Some (v \<in> keys_of (heap s) t)"
proof -
  let ?val = "\<lambda>a. value (heap s a)"
  have rt: "root s = ptr t" and sh: "shaped (\<lambda>p. p) (heap s) None t" and ord: "ordered ?val t"
    using assms by (simp_all add: treap_abs_def)
  obtain c t1 where d: "descend ?val v t [] = (c, t1)" by (cases "descend ?val v t []")
  have mem: "v \<in> keys_of (heap s) t \<longleftrightarrow> t1 \<noteq> Tip"
    unfolding keys_of_def by (rule keys_of_plug_found [OF d ord])
  show ?thesis
    using treap_contains_loop_descend [OF sh, of v "[]"] d rt mem
    by (cases t1) (simp_all add: treap_contains_def)
qed

lemma avl_contains_correct:
  assumes "avl_abs s t"
  shows "avl_contains s v = Some (v \<in> keys_of (heap s) t)"
proof -
  let ?val = "\<lambda>a. value (heap s a)"
  have rt: "root s = ptr t" and sh: "shaped (\<lambda>p. p) (heap s) None t" and ord: "ordered ?val t"
    using assms by (simp_all add: avl_abs_def)
  obtain c t1 where d: "descend ?val v t [] = (c, t1)" by (cases "descend ?val v t []")
  have mem: "v \<in> keys_of (heap s) t \<longleftrightarrow> t1 \<noteq> Tip"
    unfolding keys_of_def by (rule keys_of_plug_found [OF d ord])
  show ?thesis
    using avl_contains_loop_descend [OF sh, of v "[]"] d rt mem
    by (cases t1) (simp_all add: avl_contains_def)
qed

section \<open>Operation sequences\<close>

datatype 'a op = Insert 'a | Contains 'a | Delete 'a

fun avl_apply :: "('a::linorder) avl_tree \<Rightarrow> 'a op \<Rightarrow> 'a avl_tree option" where
  "avl_apply s (Insert v) = map_option fst (avl_insert s v)"
| "avl_apply s (Contains v) = map_option (\<lambda>_. s) (avl_contains s v)"
| "avl_apply s (Delete v) = map_option fst (avl_delete s v)"

fun avl_run :: "('a::linorder) avl_tree \<Rightarrow> 'a op list \<Rightarrow> 'a avl_tree option" where
  "avl_run s [] = Some s"
| "avl_run s (x # xs) = (case avl_apply s x of None \<Rightarrow> None | Some s' \<Rightarrow> avl_run s' xs)"

text \<open>A treap operation comes with the number that \<open>random.randint\<close> returns if the call
  draws a priority; only an insert of a new key draws.\<close>

fun treap_apply :: "('a::linorder) treap \<Rightarrow> 'a op \<times> int \<Rightarrow> 'a treap option" where
  "treap_apply s (Insert v, draw) = map_option fst (treap_insert s v draw)"
| "treap_apply s (Contains v, draw) = map_option (\<lambda>_. s) (treap_contains s v)"
| "treap_apply s (Delete v, draw) = map_option fst (treap_delete s v)"

fun treap_run :: "('a::linorder) treap \<Rightarrow> ('a op \<times> int) list \<Rightarrow> 'a treap option" where
  "treap_run s [] = Some s"
| "treap_run s (x # xs) = (case treap_apply s x of None \<Rightarrow> None | Some s' \<Rightarrow> treap_run s' xs)"

text \<open>The keys present after a sequence of operations: the last effective operation on
  the key is an insert.\<close>

fun present :: "'a set \<Rightarrow> 'a op list \<Rightarrow> 'a set" where
  "present K [] = K"
| "present K (Insert v # xs) = present (insert v K) xs"
| "present K (Contains v # xs) = present K xs"
| "present K (Delete v # xs) = present (K - {v}) xs"

lemma avl_apply_reachable:
  "avl_reachable s \<Longrightarrow> avl_apply s x = Some s' \<Longrightarrow> avl_reachable s'"
  by (cases x) (auto intro: avl_reachable.intros)

lemma avl_run_reachable:
  "avl_reachable s \<Longrightarrow> avl_run s xs = Some s' \<Longrightarrow> avl_reachable s'"
  by (induction xs arbitrary: s) (auto split: option.splits intro: avl_apply_reachable)

lemma treap_apply_reachable:
  "treap_reachable s \<Longrightarrow> treap_apply s x = Some s' \<Longrightarrow> treap_reachable s'"
  by (cases x; cases "fst x") (auto intro: treap_reachable.intros)

lemma treap_run_reachable:
  "treap_reachable s \<Longrightarrow> treap_run s xs = Some s' \<Longrightarrow> treap_reachable s'"
  by (induction xs arbitrary: s) (auto split: option.splits intro: treap_apply_reachable)

lemma avl_run_abs:
  "avl_abs s t \<Longrightarrow>
   \<exists>s' t'. avl_run s xs = Some s' \<and> avl_abs s' t' \<and>
     keys_of (heap s') t' = present (keys_of (heap s) t) xs"
proof (induction xs arbitrary: s t)
  case Nil
  then show ?case by auto
next
  case (Cons x xs)
  have "\<exists>s1 t1. avl_apply s x = Some s1 \<and> avl_abs s1 t1 \<and>
      present (keys_of (heap s) t) (x # xs) = present (keys_of (heap s1) t1) xs"
  proof (cases x)
    case (Insert v)
    from avl_insert_correct [OF Cons.prems, of v]
    obtain s1 t1 b where "avl_insert s v = Some (s1, b)" "avl_abs s1 t1"
      "keys_of (heap s1) t1 = insert v (keys_of (heap s) t)"
      by blast
    then show ?thesis unfolding Insert by (intro exI [of _ s1] exI [of _ t1]) simp
  next
    case (Contains v)
    from avl_contains_correct [OF Cons.prems, of v] Cons.prems show ?thesis
      unfolding Contains by (intro exI [of _ s] exI [of _ t]) simp
  next
    case (Delete v)
    from avl_delete_correct [OF Cons.prems, of v]
    obtain s1 t1 b where "avl_delete s v = Some (s1, b)" "avl_abs s1 t1"
      "keys_of (heap s1) t1 = keys_of (heap s) t - {v}"
      by blast
    then show ?thesis unfolding Delete by (intro exI [of _ s1] exI [of _ t1]) simp
  qed
  then obtain s1 t1 where a: "avl_apply s x = Some s1" "avl_abs s1 t1"
    "present (keys_of (heap s) t) (x # xs) = present (keys_of (heap s1) t1) xs"
    by blast
  from Cons.IH [OF a(2)] a(1,3) show ?case by auto
qed

lemma treap_run_abs:
  "treap_abs s t \<Longrightarrow>
   \<exists>s' t'. treap_run s xs = Some s' \<and> treap_abs s' t' \<and>
     keys_of (heap s') t' = present (keys_of (heap s) t) (map fst xs)"
proof (induction xs arbitrary: s t)
  case Nil
  then show ?case by auto
next
  case (Cons x xs)
  obtain o' draw where x: "x = (o', draw)" by (cases x)
  have "\<exists>s1 t1. treap_apply s x = Some s1 \<and> treap_abs s1 t1 \<and>
      present (keys_of (heap s) t) (map fst (x # xs)) = present (keys_of (heap s1) t1) (map fst xs)"
  proof (cases o')
    case (Insert v)
    from treap_insert_correct [OF Cons.prems, of v draw]
    obtain s1 t1 b where "treap_insert s v draw = Some (s1, b)" "treap_abs s1 t1"
      "keys_of (heap s1) t1 = insert v (keys_of (heap s) t)"
      by blast
    then show ?thesis unfolding x Insert by (intro exI [of _ s1] exI [of _ t1]) simp
  next
    case (Contains v)
    from treap_contains_correct [OF Cons.prems, of v] Cons.prems show ?thesis
      unfolding x Contains by (intro exI [of _ s] exI [of _ t]) simp
  next
    case (Delete v)
    from treap_delete_correct [OF Cons.prems, of v]
    obtain s1 t1 b where "treap_delete s v = Some (s1, b)" "treap_abs s1 t1"
      "keys_of (heap s1) t1 = keys_of (heap s) t - {v}"
      by blast
    then show ?thesis unfolding x Delete by (intro exI [of _ s1] exI [of _ t1]) simp
  qed
  then obtain s1 t1 where a: "treap_apply s x = Some s1" "treap_abs s1 t1"
    "present (keys_of (heap s) t) (map fst (x # xs)) = present (keys_of (heap s1) t1) (map fst xs)"
    by blast
  from Cons.IH [OF a(2)] a(1,3) show ?case by auto
qed

section \<open>AVL: heights and balance factors\<close>

text \<open>
  C5: after every insert and every delete on a reachable AVL tree the call returns, and in
  the tree it leaves every node's stored height is 1 + the maximum of the heights of its two
  subtrees (0 for a missing child, so 1 for a leaf) and the balance factor, left height minus
  right height, is -1, 0 or 1. \<open>avl_inv\<close> states it on the store, for every node that the links
  reach from the root, with the heights that \<open>_get_height\<close> reads; \<open>avl_abs\<close> states it for
  the tree \<open>t\<close> that the store holds, with the real heights \<open>ht\<close> of its subtrees.
\<close>

theorem avl_operations_keep_heights_and_balance:
  assumes "avl_reachable s"
  shows "(\<exists>s' b t. avl_insert s v = Some (s', b) \<and> avl_inv s' \<and> avl_abs s' t) \<and>
         (\<exists>s' b t. avl_delete s v = Some (s', b) \<and> avl_inv s' \<and> avl_abs s' t)"
proof -
  obtain t where t: "avl_abs s t" using avl_reachable_abs [OF assms] by blast
  from avl_insert_correct [OF t, of v]
  obtain s1 t1 b1 where "avl_insert s v = Some (s1, b1)" "avl_abs s1 t1" by blast
  moreover from avl_delete_correct [OF t, of v]
  obtain s2 t2 b2 where "avl_delete s v = Some (s2, b2)" "avl_abs s2 t2" by blast
  ultimately show ?thesis using avl_abs_inv by blast
qed

theorem avl_operations_keep_heights_and_balance_witness:
  "(case avl_run avl_empty [Insert (1::nat), Insert 2, Insert 3, Insert 4, Delete 1] of
      None \<Rightarrow> False
    | Some s \<Rightarrow> avl_reachable s \<and>
        (\<exists>s' b t. avl_insert s 5 = Some (s', b) \<and> avl_inv s' \<and> avl_abs s' t) \<and>
        (\<exists>s' b t. avl_delete s 5 = Some (s', b) \<and> avl_inv s' \<and> avl_abs s' t))"
proof -
  have "case avl_run avl_empty [Insert (1::nat), Insert 2, Insert 3, Insert 4, Delete 1] of
      None \<Rightarrow> False | Some s \<Rightarrow> True"
    by code_simp
  then obtain s where s: "avl_run avl_empty [Insert (1::nat), Insert 2, Insert 3, Insert 4, Delete 1] = Some s"
    by (auto split: option.splits)
  have r: "avl_reachable s" by (rule avl_run_reachable [OF avl_reachable.init s])
  show ?thesis
    unfolding s option.case using r avl_operations_keep_heights_and_balance [OF r, of 5] by simp
qed

section \<open>Treap: heap order and parent links\<close>

text \<open>
  C6: after every insert and every delete on a reachable treap, whatever priority the insert
  draws (the draws of the earlier inserts are arbitrary too, and may be equal), the call
  returns, and in the tree it leaves every child of every node has a priority that is at most
  the priority of the node, and a parent link that points to the node.
\<close>

theorem treap_operations_keep_heap_order:
  assumes "treap_reachable s"
  shows "(\<exists>s' b. treap_insert s v draw = Some (s', b) \<and> treap_heap_inv s') \<and>
         (\<exists>s' b. treap_delete s v = Some (s', b) \<and> treap_heap_inv s')"
proof -
  obtain t where t: "treap_abs s t" using treap_reachable_abs [OF assms] by blast
  from treap_insert_correct [OF t, of v draw]
  obtain s1 t1 b1 where "treap_insert s v draw = Some (s1, b1)" "treap_abs s1 t1" by blast
  moreover from treap_delete_correct [OF t, of v]
  obtain s2 t2 b2 where "treap_delete s v = Some (s2, b2)" "treap_abs s2 t2" by blast
  ultimately show ?thesis using treap_abs_heap_inv by blast
qed

theorem treap_operations_keep_heap_order_witness:
  "(case treap_run (treap_empty 10)
           [(Insert (1::nat), 4), (Insert 2, 4), (Insert 3, 9), (Delete 2, 0), (Insert 5, 4)] of
      None \<Rightarrow> False
    | Some s \<Rightarrow> treap_reachable s \<and>
        (\<exists>s' b. treap_insert s 4 4 = Some (s', b) \<and> treap_heap_inv s') \<and>
        (\<exists>s' b. treap_delete s 3 = Some (s', b) \<and> treap_heap_inv s'))"
proof -
  have "case treap_run (treap_empty 10)
           [(Insert (1::nat), 4), (Insert 2, 4), (Insert 3, 9), (Delete 2, 0), (Insert 5, 4)] of
      None \<Rightarrow> False | Some s \<Rightarrow> True"
    by code_simp
  then obtain s where s: "treap_run (treap_empty 10)
      [(Insert (1::nat), 4), (Insert 2, 4), (Insert 3, 9), (Delete 2, 0), (Insert 5, 4)] = Some s"
    by (auto split: option.splits)
  have r: "treap_reachable s" by (rule treap_run_reachable [OF treap_reachable.init s])
  show ?thesis
    unfolding s option.case
    using r treap_operations_keep_heap_order [OF r, of 4 4]
      treap_operations_keep_heap_order [OF r, of 3] by blast
qed

section \<open>Treap: the rotate-down rule of delete\<close>

text \<open>The rule in the words of the specification: a node with only a right child is
  left-rotated, a node with only a left child is right-rotated, a node with two children is
  rotated towards the child of higher priority, and a tie is a left rotation; this repeats
  until the node is a leaf.\<close>

inductive rotated_down :: "'a treap \<Rightarrow> nat \<Rightarrow> 'a treap \<Rightarrow> bool" where
  leaf: "left (heap s n) = None \<Longrightarrow> right (heap s n) = None \<Longrightarrow> rotated_down s n s"
| only_right:
    "left (heap s n) = None \<Longrightarrow> right (heap s n) = Some r \<Longrightarrow>
     rotated_down (fst (treap_rotate_left s n True)) n s' \<Longrightarrow> rotated_down s n s'"
| only_left:
    "left (heap s n) = Some l \<Longrightarrow> right (heap s n) = None \<Longrightarrow>
     rotated_down (fst (treap_rotate_right s n True)) n s' \<Longrightarrow> rotated_down s n s'"
| left_higher:
    "left (heap s n) = Some l \<Longrightarrow> right (heap s n) = Some r \<Longrightarrow>
     priority (heap s l) > priority (heap s r) \<Longrightarrow>
     rotated_down (fst (treap_rotate_right s n True)) n s' \<Longrightarrow> rotated_down s n s'"
| right_higher_or_tie:
    "left (heap s n) = Some l \<Longrightarrow> right (heap s n) = Some r \<Longrightarrow>
     priority (heap s l) \<le> priority (heap s r) \<Longrightarrow>
     rotated_down (fst (treap_rotate_left s n True)) n s' \<Longrightarrow> rotated_down s n s'"

text \<open>The node is detached from its parent, or the root is cleared if it was the root.\<close>

definition detached :: "'a treap \<Rightarrow> nat \<Rightarrow> 'a treap \<Rightarrow> bool" where
  "detached s n s' \<longleftrightarrow>
     (case parent (heap s n) of
        None \<Rightarrow> root s = Some n \<and> s' = s\<lparr>root := None\<rparr>
      | Some p \<Rightarrow>
          (left (heap s p) = Some n \<and> s' = s\<lparr>heap := set_left (heap s) p None\<rparr>) \<or>
          (left (heap s p) \<noteq> Some n \<and> right (heap s p) = Some n \<and>
           s' = s\<lparr>heap := set_right (heap s) p None\<rparr>))"

lemma treap_rotate_down_rule:
  assumes "treap_rotate_down s n = Some s'"
  shows "rotated_down s n s'"
proof (rule treap_rotate_down.raw_induct [where P = rotated_down, OF _ assms])
  fix rd :: "'a treap \<Rightarrow> nat \<Rightarrow> 'a treap option" and s n s'
  assume ih: "\<And>s n y. rd s n = Some y \<Longrightarrow> rotated_down s n y"
    and b: "(if left (heap s n) \<noteq> None \<or> right (heap s n) \<noteq> None
             then case treap_rotate_down_step s n of None \<Rightarrow> None | Some s \<Rightarrow> rd s n
             else Some s) = Some s'"
  show "rotated_down s n s'"
  proof (cases "left (heap s n)")
    case None
    note l = this
    show ?thesis
    proof (cases "right (heap s n)")
      case None
      then show ?thesis using b l by (auto intro: rotated_down.leaf)
    next
      case (Some r)
      then have "rd (fst (treap_rotate_left s n True)) n = Some s'"
        using b l by (simp add: treap_rotate_down_step_def)
      then show ?thesis using rotated_down.only_right [OF l Some] ih by blast
    qed
  next
    case (Some l)
    note l = this
    show ?thesis
    proof (cases "right (heap s n)")
      case None
      then have "rd (fst (treap_rotate_right s n True)) n = Some s'"
        using b l by (simp add: treap_rotate_down_step_def)
      then show ?thesis using rotated_down.only_left [OF l None] ih by blast
    next
      case (Some r)
      show ?thesis
      proof (cases "priority (heap s l) > priority (heap s r)")
        case True
        then have "rd (fst (treap_rotate_right s n True)) n = Some s'"
          using b l Some by (simp add: treap_rotate_down_step_def)
        then show ?thesis using rotated_down.left_higher [OF l Some True] ih by blast
      next
        case False
        then have "rd (fst (treap_rotate_left s n True)) n = Some s'"
          using b l Some by (simp add: treap_rotate_down_step_def)
        moreover have "priority (heap s l) \<le> priority (heap s r)" using False by simp
        ultimately show ?thesis using rotated_down.right_higher_or_tie [OF l Some] ih by blast
      qed
    qed
  qed
qed

text \<open>
  C8: on a reachable treap, delete of a key that is present returns true; between the tree
  before and the tree after, the node that holds the key is rotated down by the rule above
  until it is a leaf, and then detached from its parent (the root is cleared if the node is
  the root); the links from the root no longer reach the node.
\<close>

theorem treap_delete_rotates_down_then_detaches:
  assumes "treap_reachable s" and "treap_contains s v = Some True"
  shows "\<exists>cur s1 s'. cur \<in> nodes (heap s) (root s) \<and> value (heap s cur) = v \<and>
           rotated_down s cur s1 \<and> left (heap s1 cur) = None \<and> right (heap s1 cur) = None \<and>
           detached s1 cur s' \<and> treap_delete s v = Some (s', True) \<and>
           cur \<notin> nodes (heap s') (root s')"
proof -
  obtain t where t: "treap_abs s t" using treap_reachable_abs [OF assms(1)] by blast
  have mem: "v \<in> keys_of (heap s) t" using treap_contains_correct [OF t, of v] assms(2) by simp
  from treap_delete_correct [OF t, of v]
  obtain s' t' b where d0: "treap_delete s v = Some (s', b)" "treap_abs s' t'"
    "b \<longleftrightarrow> v \<in> keys_of (heap s) t"
    "b \<longrightarrow> (\<exists>cur s1. treap_delete_search (heap s) (root s) v = Some (Some cur) \<and>
       value (heap s cur) = v \<and> cur \<in> addrs t \<and> treap_rotate_down s cur = Some s1 \<and>
       left (heap s1 cur) = None \<and> right (heap s1 cur) = None \<and>
       (case parent (heap s1 cur) of None \<Rightarrow> root s1 = Some cur
        | Some p \<Rightarrow> left (heap s1 p) = Some cur \<or> right (heap s1 p) = Some cur) \<and>
       s' = treap_detach s1 cur \<and> cur \<notin> addrs t')"
    by blast
  have b: b using d0(3) mem by simp
  have d1: "treap_delete s v = Some (s', True)" using d0(1) b by simp
  from d0(4) b obtain cur s1 where d2:
    "value (heap s cur) = v" "cur \<in> addrs t" "treap_rotate_down s cur = Some s1"
    "left (heap s1 cur) = None" "right (heap s1 cur) = None"
    "case parent (heap s1 cur) of None \<Rightarrow> root s1 = Some cur
     | Some p \<Rightarrow> left (heap s1 p) = Some cur \<or> right (heap s1 p) = Some cur"
    "s' = treap_detach s1 cur" "cur \<notin> addrs t'"
    by blast
  note d = d1 d0(2) d2
  have n: "nodes (heap s) (root s) = addrs t" "nodes (heap s') (root s') = addrs t'"
    using nodes_shaped [of "heap s" None t] nodes_shaped [of "heap s'" None t'] t d(2)
    by (simp_all add: treap_abs_def)
  have dt: "detached s1 cur s'"
    using d(8) unfolding detached_def d(9) treap_detach_def by (auto split: option.splits)
  show ?thesis
    using d(1,3,4,6,7,10) dt treap_rotate_down_rule [OF d(5)]
    by (intro exI [of _ cur] exI [of _ s1] exI [of _ s']) (simp add: n)
qed

theorem treap_delete_rotates_down_then_detaches_witness:
  "(case treap_run (treap_empty 10)
           [(Insert (2::nat), 9), (Insert 1, 4), (Insert 3, 4), (Insert 4, 1)] of
      None \<Rightarrow> False
    | Some s \<Rightarrow> treap_reachable s \<and> treap_contains s 2 = Some True \<and>
        (\<exists>cur s1 s'. cur \<in> nodes (heap s) (root s) \<and> value (heap s cur) = 2 \<and>
           rotated_down s cur s1 \<and> left (heap s1 cur) = None \<and> right (heap s1 cur) = None \<and>
           detached s1 cur s' \<and> treap_delete s 2 = Some (s', True) \<and>
           cur \<notin> nodes (heap s') (root s')))"
proof -
  have "case treap_run (treap_empty 10)
           [(Insert (2::nat), 9), (Insert 1, 4), (Insert 3, 4), (Insert 4, 1)] of
      None \<Rightarrow> False | Some s \<Rightarrow> treap_contains s 2 = Some True"
    by code_simp
  then obtain s where s: "treap_run (treap_empty 10)
      [(Insert (2::nat), 9), (Insert 1, 4), (Insert 3, 4), (Insert 4, 1)] = Some s"
    and c: "treap_contains s 2 = Some True"
    by (auto split: option.splits)
  have r: "treap_reachable s" by (rule treap_run_reachable [OF treap_reachable.init s])
  show ?thesis
    unfolding s option.case
    using r c treap_delete_rotates_down_then_detaches [OF r c] by blast
qed

section \<open>AVL validate and ordering violations below a child\<close>

text \<open>
  The tree that the inserts of m, c, t, e build has the root m, its left child c and the
  right child e of c. Overwriting the value of e (the node at address 3) by p, as the
  test \<open>test_validate_raises_on_corruption\<close> overwrites values, leaves p in the left subtree
  of m.
\<close>

definition avl_corrupted :: "string avl_tree option" where
  "avl_corrupted =
     do { s \<leftarrow> avl_run avl_empty [Insert ''m'', Insert ''c'', Insert ''t'', Insert ''e''];
          Some (s\<lparr>heap := set_value (heap s) 3 ''p''\<rparr>) }"

text \<open>
  C3: \<open>validate\<close> is to fail on every tree that breaches BST ordering, including a
  breach by a descendant that is not a child. On the tree above it returns normally,
  although p follows c and precedes m in the in-order enumeration: \<open>_check\<close> compares a
  node with its two children only.
\<close>

theorem avl_validate_accepts_unordered_tree:
  "(case avl_corrupted of
      None \<Rightarrow> False
    | Some s \<Rightarrow>
        avl_validate s = Some (Inr ()) \<and>
        inorder_values (heap s) (root s) = Some [''c'', ''p'', ''m'', ''t''] \<and>
        \<not> sorted [''c'', ''p'', ''m'', ''t''])"
  by code_simp

end
